theory Spec2Isabelle
  imports Complex_Main "HOL-Library.Multiset" "HOL-Library.Log_Nat"
begin

section \<open>Numbers\<close>

text \<open>
  The script computes with IEEE 754 double precision numbers. A result of \<open>+\<close>, \<open>-\<close>, \<open>*\<close>
  or \<open>/\<close> is the exact result rounded to the nearest number with a significand of 53
  bits, a tie going to the even significand; \<open>fl\<close> is that rounding. \<open>expo x\<close> is the
  exponent \<open>e\<close> with \<open>2^e \<le> |x| < 2^(e+1)\<close>. The range of the exponent is not bounded
  here: every number that the script computes is zero or lies far inside the range of
  the normal doubles. Integers below \<open>2^53\<close> are doubles, and products and sums of small
  integers are written without \<open>fl\<close>.
\<close>

definition expo :: "real \<Rightarrow> int" where
  "expo x =
     (if 1 \<le> \<bar>x\<bar> then int (floorlog 2 (nat \<lfloor>\<bar>x\<bar>\<rfloor>)) - 1
      else - int (floorlog 2 (nat (\<lceil>1 / \<bar>x\<bar>\<rceil> - 1))))"

definition round_even :: "real \<Rightarrow> int" where
  "round_even m =
     (if m - of_int \<lfloor>m\<rfloor> < 1 / 2 then \<lfloor>m\<rfloor>
      else if 1 / 2 < m - of_int \<lfloor>m\<rfloor> then \<lfloor>m\<rfloor> + 1
      else if even \<lfloor>m\<rfloor> then \<lfloor>m\<rfloor> else \<lfloor>m\<rfloor> + 1)"

definition fl :: "real \<Rightarrow> real" where
  "fl x =
     (if x = 0 then 0
      else of_int (round_even (x * 2 powi (52 - expo x))) * 2 powi (expo x - 52))"

section \<open>Random source\<close>

text \<open>
  \<open>Math.random()\<close> is modelled as reading the next element of an infinite sequence of
  draws; the state that is passed on is the sequence without its first element. The
  contract of \<open>Math.random()\<close> (a double in \<open>[0, 1)\<close>, so at most \<open>1 - 2^-53\<close>) is the
  predicate \<open>uniform\<close>.
\<close>

type_synonym rng = "nat \<Rightarrow> real"

definition Math_random :: "rng \<Rightarrow> real \<times> rng" where
  "Math_random s = (s 0, \<lambda>n. s (Suc n))"

definition uniform :: "rng \<Rightarrow> bool" where
  "uniform s = (\<forall>n. 0 \<le> s n \<and> s n \<le> 1 - 1 / 2 ^ 53)"

text \<open>
  \<open>randomIntFromInterval(min, max)\<close>:
  \<open>Math.floor(Math.random() * (max - min + 1) + min)\<close>.
\<close>

definition randomIntFromInterval :: "real \<Rightarrow> real \<Rightarrow> rng \<Rightarrow> int \<times> rng" where
  "randomIntFromInterval min_v max_v s =
     (case Math_random s of
        (u, s') \<Rightarrow> (\<lfloor>fl (fl (u * fl (fl (max_v - min_v) + 1)) + min_v)\<rfloor>, s'))"

text \<open>
  \<open>initNumberOfBalls(columns, height)\<close>: \<open>columns * height / 2\<close> is a division of
  numbers, not an integer division.
\<close>

definition initNumberOfBalls :: "int \<Rightarrow> int \<Rightarrow> rng \<Rightarrow> int \<times> rng" where
  "initNumberOfBalls columns height s =
     (let minBalls = real_of_int (columns * 2);
          maxBalls = fl (fl (real_of_int (columns * height) / 2) + 1)
      in randomIntFromInterval minBalls maxBalls s)"

section \<open>shuffle\<close>

text \<open>
  The \<open>for\<close> loop of \<open>shuffle\<close>, started at \<open>currentIndex\<close>. The destructuring
  assignment reads both elements and then writes both. With a double in \<open>[0, 1)\<close> the index
  \<open>randomIndex\<close> is below \<open>currentIndex\<close>, so both writes are inside the array.
\<close>

function shuffle_loop :: "nat \<Rightarrow> 'a list \<Rightarrow> rng \<Rightarrow> 'a list \<times> rng" where
  "shuffle_loop currentIndex array s =
     (if currentIndex < length array then
        (case Math_random s of (u, s') \<Rightarrow>
           (let randomIndex = nat \<lfloor>fl (u * real currentIndex)\<rfloor> in
              shuffle_loop (Suc currentIndex)
                (array[currentIndex := array ! randomIndex, randomIndex := array ! currentIndex])
                s'))
      else (array, s))"
  by pat_completeness auto
termination
  by (relation "measure (\<lambda>(currentIndex, array, s). length array - currentIndex)") auto

declare shuffle_loop.simps [simp del]

definition shuffle :: "'a list \<Rightarrow> rng \<Rightarrow> 'a list \<times> rng" where
  "shuffle array s = shuffle_loop 1 array s"

section \<open>initializeColors\<close>

text \<open>
  The remainder operator \<open>a % b\<close> on numbers, for \<open>b\<close> other than zero: the quotient is
  truncated towards zero, so the result has the sign of \<open>a\<close>. The remainder of two
  doubles is a double, so nothing is rounded.
\<close>

definition js_rem :: "real \<Rightarrow> real \<Rightarrow> real" where
  "js_rem a b = a - b * of_int (if 0 \<le> a / b then \<lfloor>a / b\<rfloor> else \<lceil>a / b\<rceil>)"

text \<open>\<open>Math.round\<close> of a double: the nearest integer, a tie going up.\<close>

definition Math_round :: "real \<Rightarrow> int" where
  "Math_round x = \<lfloor>x + 1 / 2\<rfloor>"

text \<open>\<open>toString(16)\<close> of an integer and \<open>padStart(2, '0')\<close>.\<close>

definition hex_digit :: "nat \<Rightarrow> char" where
  "hex_digit d = ''0123456789abcdef'' ! d"

function digits16 :: "nat \<Rightarrow> string" where
  "digits16 n = (if n < 16 then [hex_digit n] else digits16 (n div 16) @ [hex_digit (n mod 16)])"
  by pat_completeness auto
termination
  by (relation "measure id") auto

declare digits16.simps [simp del]

definition toString16 :: "int \<Rightarrow> string" where
  "toString16 n = (if n < 0 then CHR ''-'' # digits16 (nat (- n)) else digits16 (nat n))"

definition padStart2 :: "string \<Rightarrow> string" where
  "padStart2 str = replicate (2 - length str) CHR ''0'' @ str"

text \<open>
  \<open>hslToHex(h, s, l)\<close>; the parameter \<open>l\<close> is reassigned in the first statement. Every
  arithmetic operation rounds its result.
\<close>

definition hslToHex :: "real \<Rightarrow> real \<Rightarrow> real \<Rightarrow> string" where
  "hslToHex h s l0 =
     (let l = fl (l0 / 100);
          a = fl (fl (s * min l (fl (1 - l))) / 100);
          f = (\<lambda>n. let k = js_rem (fl (n + fl (h / 30))) 12;
                        color = fl (l - fl (a * max (min (min (fl (k - 3)) (fl (9 - k))) 1) (- 1)))
                    in padStart2 (toString16 (Math_round (fl (255 * color)))))
      in ''#'' @ f 0 @ f 8 @ f 4)"

text \<open>The loop of \<open>initializeColors\<close>, started at \<open>i\<close>.\<close>

function colors_loop :: "int \<Rightarrow> int \<Rightarrow> string list \<Rightarrow> string list" where
  "colors_loop i colorsLength colors_list =
     (if i < colorsLength then
        colors_loop (i + 1) colorsLength
          (colors_list @
             [hslToHex
                (js_rem (fl (real_of_int i * fl (360 / real_of_int colorsLength))) 360) 100 50])
      else colors_list)"
  by pat_completeness auto
termination
  by (relation "measure (\<lambda>(i, colorsLength, colors_list). nat (colorsLength - i))") auto

declare colors_loop.simps [simp del]

definition initializeColors :: "int \<Rightarrow> rng \<Rightarrow> string list \<times> rng" where
  "initializeColors colorsLength s = shuffle (colors_loop 0 colorsLength []) s"

section \<open>chooseBallsInColumn\<close>

text \<open>
  What a call can throw: \<open>new Error("Cannot hold all the balls")\<close> (the spec's
  CapacityExceeded), a \<open>TypeError\<close> (spreading \<open>undefined\<close>, indexing \<open>undefined\<close>) and a
  \<open>RangeError\<close> (an invalid array length, or the call stack exhausted).
\<close>

datatype error = CapacityExceeded | TypeError | RangeError

text \<open>
  The result of a call that may fall off the end of its body: \<open>Inl e\<close> is a thrown
  error, \<open>Inr None\<close> is the value \<open>undefined\<close>, \<open>Inr (Some p)\<close> is an array.
\<close>

type_synonym partition_result = "error + int list option"

text \<open>
  \<open>balls / columns > height\<close> on numbers: a division by zero is \<open>Infinity\<close>,
  \<open>-Infinity\<close> or \<open>NaN\<close>, and only \<open>Infinity\<close> exceeds a height.
\<close>

definition quotient_exceeds :: "int \<Rightarrow> int \<Rightarrow> int \<Rightarrow> bool" where
  "quotient_exceeds balls columns height =
     (if columns = 0 then 0 < balls
      else real_of_int height < real_of_int balls / real_of_int columns)"

text \<open>
  The \<open>for ... of\<close> loop over the shuffled candidates. \<open>attempt k\<close> is the recursive call
  for candidate \<open>k\<close>. Inside the \<open>try\<close>, a recursive call that throws, or that returns
  \<open>undefined\<close> (spreading it throws a TypeError), leads to \<open>continue\<close>; when the
  candidates are used up the function body ends and the call returns \<open>undefined\<close>.
\<close>

fun forPossibilities ::
  "(int \<Rightarrow> rng \<Rightarrow> partition_result \<times> rng) \<Rightarrow> int list \<Rightarrow> rng \<Rightarrow> partition_result \<times> rng" where
  "forPossibilities attempt [] s = (Inr None, s)"
| "forPossibilities attempt (firstColumnBalls # rest) s =
     (case attempt firstColumnBalls s of
        (Inr (Some tail), s') \<Rightarrow> (Inr (Some (firstColumnBalls # tail)), s')
      | (Inr None, s') \<Rightarrow> forPossibilities attempt rest s'
      | (Inl e, s') \<Rightarrow> forPossibilities attempt rest s')"

text \<open>
  \<open>chooseBallsInColumn(columns, balls, height)\<close>. The recursion ends only at
  \<open>columns === 1\<close>, so the first argument bounds the depth of the call stack: a call
  with no stack left throws a RangeError, as the engine does.
\<close>

fun chooseBallsInColumn ::
  "nat \<Rightarrow> int \<Rightarrow> int \<Rightarrow> int \<Rightarrow> rng \<Rightarrow> partition_result \<times> rng" where
  "chooseBallsInColumn 0 columns balls height s = (Inl RangeError, s)"
| "chooseBallsInColumn (Suc stack) columns balls height s =
     (if quotient_exceeds balls columns height then (Inl CapacityExceeded, s)
      else if columns = 1 then (Inr (Some [balls]), s)
      else if min height balls + 1 < 0 then (Inl RangeError, s)
      else
        (case shuffle (map int [0..<nat (min height balls + 1)]) s of
           (possibilities, s') \<Rightarrow>
             forPossibilities
               (\<lambda>firstColumnBalls.
                  chooseBallsInColumn stack (columns - 1) (balls - firstColumnBalls) height)
               possibilities s'))"

section \<open>initializeState\<close>

text \<open>
  What a slot of a column can hold: a colour, \<open>null\<close>, or \<open>undefined\<close> (the value of a
  read outside the array). Colours are values of an arbitrary type \<open>'a\<close>; the program
  uses hex strings.
\<close>

datatype 'a slot = Undefined | Null | Color 'a

text \<open>\<open>array[i]\<close> on an array: \<open>None\<close> stands for \<open>undefined\<close>.\<close>

definition array_get :: "'b list \<Rightarrow> int \<Rightarrow> 'b option" where
  "array_get xs i = (if 0 \<le> i \<and> i < int (length xs) then Some (xs ! nat i) else None)"

text \<open>\<open>shuffleElements[colorIndex]\<close>: an element of the colour array, as a slot value.\<close>

definition element_at :: "'a list \<Rightarrow> int \<Rightarrow> 'a slot" where
  "element_at shuffleElements colorIndex =
     (case array_get shuffleElements colorIndex of None \<Rightarrow> Undefined | Some c \<Rightarrow> Color c)"

text \<open>
  The inner loop of \<open>initializeState\<close>, started at row \<open>j\<close>; it returns the finished
  column and the new value of \<open>colorIndex\<close>.
\<close>

function fill_column ::
  "'a list \<Rightarrow> int \<Rightarrow> int \<Rightarrow> int \<Rightarrow> int \<Rightarrow> 'a slot list \<Rightarrow> 'a slot list \<times> int" where
  "fill_column shuffleElements height columnLength j colorIndex column =
     (if j < height then
        (if j < columnLength then
           fill_column shuffleElements height columnLength (j + 1) (colorIndex + 1)
             (column @ [element_at shuffleElements colorIndex])
         else
           fill_column shuffleElements height columnLength (j + 1) colorIndex (column @ [Null]))
      else (column, colorIndex))"
  by pat_completeness auto
termination
  by (relation "measure (\<lambda>(shuffleElements, height, columnLength, j, colorIndex, column).
        nat (height - j))") auto

declare fill_column.simps [simp del]

text \<open>The outer loop of \<open>initializeState\<close> over \<open>ballsInColumns\<close>.\<close>

fun fill_columns ::
  "'a list \<Rightarrow> int \<Rightarrow> int list \<Rightarrow> int \<Rightarrow> 'a slot list list \<Rightarrow> 'a slot list list" where
  "fill_columns shuffleElements height [] colorIndex initialState = initialState"
| "fill_columns shuffleElements height (columnLength # rest) colorIndex initialState =
     (case fill_column shuffleElements height columnLength 0 colorIndex [] of
        (column, colorIndex') \<Rightarrow>
          fill_columns shuffleElements height rest colorIndex' (initialState @ [column]))"

text \<open>
  \<open>initializeState(elements, columns, height)\<close>. When \<open>chooseBallsInColumn\<close> returns
  \<open>undefined\<close>, the \<open>for ... of\<close> loop over it throws a TypeError. The call of
  \<open>generatePythonCode\<close> only writes to the console and is left out.
\<close>

definition initializeState ::
  "nat \<Rightarrow> 'a list \<Rightarrow> int \<Rightarrow> int \<Rightarrow> rng \<Rightarrow> (error + 'a slot list list) \<times> rng" where
  "initializeState stack elements columns height s =
     (case shuffle elements s of
        (shuffleElements, s1) \<Rightarrow>
          (case chooseBallsInColumn stack columns (int (length elements)) height s1 of
             (Inl e, s2) \<Rightarrow> (Inl e, s2)
           | (Inr None, s2) \<Rightarrow> (Inl TypeError, s2)
           | (Inr (Some ballsInColumns), s2) \<Rightarrow>
               (Inr (fill_columns shuffleElements height ballsInColumns 0 []), s2)))"

section \<open>The game\<close>

text \<open>
  The variables of the page's script that the click handlers read and write. The selected
  piece is \<open>null\<close> (\<open>None\<close>) or an object \<open>{column, row}\<close>.
\<close>

record 'a game =
  COLUMNS :: int
  HEIGHT :: int
  state :: "'a slot list list"
  referenceState :: "'a slot list list"
  selectedPiece :: "(int \<times> int) option"

text \<open>
  \<open>board[c][r]\<close>: indexing \<open>undefined\<close> throws a TypeError, a row outside the column
  reads \<open>undefined\<close>.
\<close>

definition slot_at :: "'a slot list list \<Rightarrow> int \<Rightarrow> int \<Rightarrow> error + 'a slot" where
  "slot_at board c r =
     (case array_get board c of
        None \<Rightarrow> Inl TypeError
      | Some column \<Rightarrow> Inr (case array_get column r of None \<Rightarrow> Undefined | Some v \<Rightarrow> v))"

text \<open>
  \<open>column[r] = v\<close>: a write past the end extends the array with holes, a write at a
  negative index sets a property and leaves the elements alone.
\<close>

definition column_set :: "'a slot list \<Rightarrow> int \<Rightarrow> 'a slot \<Rightarrow> 'a slot list" where
  "column_set column r v =
     (if r < 0 then column
      else if r < int (length column) then column[nat r := v]
      else column @ replicate (nat r - length column) Undefined @ [v])"

definition slot_set :: "'a slot list list \<Rightarrow> int \<Rightarrow> int \<Rightarrow> 'a slot \<Rightarrow> error + 'a slot list list" where
  "slot_set board c r v =
     (case array_get board c of
        None \<Rightarrow> Inl TypeError
      | Some column \<Rightarrow> Inr (board[nat c := column_set column r v]))"

text \<open>The inner and the outer loop of \<open>haveWon\<close>, started at \<open>j\<close> and at \<open>i\<close>.\<close>

function haveWon_row :: "'a game \<Rightarrow> int \<Rightarrow> int \<Rightarrow> error + bool" where
  "haveWon_row g i j =
     (if j < HEIGHT g then
        (case slot_at (state g) i j of
           Inl e \<Rightarrow> Inl e
         | Inr v \<Rightarrow>
             (case slot_at (referenceState g) i j of
                Inl e \<Rightarrow> Inl e
              | Inr w \<Rightarrow> if v \<noteq> w then Inr False else haveWon_row g i (j + 1)))
      else Inr True)"
  by pat_completeness auto
termination
  by (relation "measure (\<lambda>(g, i, j). nat (HEIGHT g - j))") auto

declare haveWon_row.simps [simp del]

function haveWon_from :: "'a game \<Rightarrow> int \<Rightarrow> error + bool" where
  "haveWon_from g i =
     (if i < COLUMNS g then
        (case haveWon_row g i 0 of
           Inl e \<Rightarrow> Inl e
         | Inr same \<Rightarrow> if same then haveWon_from g (i + 1) else Inr False)
      else Inr True)"
  by pat_completeness auto
termination
  by (relation "measure (\<lambda>(g, i). nat (COLUMNS g - i))") auto

declare haveWon_from.simps [simp del]

definition haveWon :: "'a game \<Rightarrow> error + bool" where
  "haveWon g = haveWon_from g 0"

text \<open>
  \<open>renderGame\<close>. \<open>renderInteractiveTowers\<close> first calls \<open>haveWon\<close>, which can throw; after
  that both render functions only rebuild the page from the variables and change none of
  them.
\<close>

definition renderGame :: "'a game \<Rightarrow> error + unit" where
  "renderGame g = (case haveWon g of Inl e \<Rightarrow> Inl e | Inr won \<Rightarrow> Inr ())"

text \<open>The loop of \<open>findEmptyRow\<close>, started at row \<open>i\<close>.\<close>

function findEmptyRow_from :: "'a game \<Rightarrow> int \<Rightarrow> int \<Rightarrow> error + int" where
  "findEmptyRow_from g columnIndex i =
     (if i \<le> HEIGHT g then
        (case slot_at (state g) columnIndex i of
           Inl e \<Rightarrow> Inl e
         | Inr v \<Rightarrow> if v = Null then Inr i else findEmptyRow_from g columnIndex (i + 1))
      else Inr (- 1))"
  by pat_completeness auto
termination
  by (relation "measure (\<lambda>(g, columnIndex, i). nat (HEIGHT g + 1 - i))") auto

declare findEmptyRow_from.simps [simp del]

definition findEmptyRow :: "'a game \<Rightarrow> int \<Rightarrow> error + int" where
  "findEmptyRow g columnIndex = findEmptyRow_from g columnIndex 0"

text \<open>The loop of \<open>findTopPiece\<close>, started at row \<open>i\<close>.\<close>

function findTopPiece_from :: "'a game \<Rightarrow> int \<Rightarrow> int \<Rightarrow> error + int" where
  "findTopPiece_from g columnIndex i =
     (if 0 \<le> i then
        (case slot_at (state g) columnIndex i of
           Inl e \<Rightarrow> Inl e
         | Inr v \<Rightarrow> if v \<noteq> Null then Inr i else findTopPiece_from g columnIndex (i - 1))
      else Inr (- 1))"
  by pat_completeness auto
termination
  by (relation "measure (\<lambda>(g, columnIndex, i). nat (i + 1))") auto

declare findTopPiece_from.simps [simp del]

definition findTopPiece :: "'a game \<Rightarrow> int \<Rightarrow> error + int" where
  "findTopPiece g columnIndex = findTopPiece_from g columnIndex (HEIGHT g - 1)"

definition handleFirstClick :: "'a game \<Rightarrow> int \<Rightarrow> error + 'a game" where
  "handleFirstClick g columnIndex =
     (case findTopPiece g columnIndex of
        Inl e \<Rightarrow> Inl e
      | Inr rowTopPiece \<Rightarrow>
          if rowTopPiece = - 1 then Inr (g\<lparr>selectedPiece := None\<rparr>)
          else Inr (g\<lparr>selectedPiece := Some (columnIndex, rowTopPiece)\<rparr>))"

text \<open>
  \<open>handleSecondClick\<close>. Reading \<open>selectedPiece.column\<close> of \<open>null\<close> throws a TypeError.
  The two assignments of the move are \<open>slot_set\<close> after \<open>slot_at\<close>.
\<close>

definition handleSecondClick :: "'a game \<Rightarrow> int \<Rightarrow> error + 'a game" where
  "handleSecondClick g columnIndex =
     (case selectedPiece g of
        None \<Rightarrow> Inl TypeError
      | Some (column, row) \<Rightarrow>
          if columnIndex = column then Inr (g\<lparr>selectedPiece := None\<rparr>)
          else
            (case findEmptyRow g columnIndex of
               Inl e \<Rightarrow> Inl e
             | Inr targetRow \<Rightarrow>
                 if targetRow \<noteq> - 1 then
                   (case slot_at (state g) column row of
                      Inl e \<Rightarrow> Inl e
                    | Inr piece \<Rightarrow>
                        (case slot_set (state g) columnIndex targetRow piece of
                           Inl e \<Rightarrow> Inl e
                         | Inr moved \<Rightarrow>
                             (case slot_set moved column row Null of
                                Inl e \<Rightarrow> Inl e
                              | Inr cleared \<Rightarrow>
                                  Inr (g\<lparr>state := cleared, selectedPiece := None\<rparr>))))
                 else Inr (g\<lparr>selectedPiece := None\<rparr>)))"

text \<open>\<open>handleClick\<close>: one of the two handlers, then \<open>renderGame\<close>.\<close>

definition handleClick :: "'a game \<Rightarrow> int \<Rightarrow> error + 'a game" where
  "handleClick g columnIndex =
     (case (if selectedPiece g = None then handleFirstClick g columnIndex
            else handleSecondClick g columnIndex) of
        Inl e \<Rightarrow> Inl e
      | Inr g' \<Rightarrow> (case renderGame g' of Inl e \<Rightarrow> Inl e | Inr u \<Rightarrow> Inr g'))"

text \<open>A sequence of click events, handled one after the other.\<close>

fun handleClicks :: "'a game \<Rightarrow> int list \<Rightarrow> error + 'a game" where
  "handleClicks g [] = Inr g"
| "handleClicks g (columnIndex # rest) =
     (case handleClick g columnIndex of Inl e \<Rightarrow> Inl e | Inr g' \<Rightarrow> handleClicks g' rest)"

section \<open>Predicates on columns and boards\<close>

text \<open>The number of slots of a column that are not \<open>null\<close>.\<close>

definition filled_slots :: "'a slot list \<Rightarrow> int" where
  "filled_slots column = int (length (filter (\<lambda>v. v \<noteq> Null) column))"

text \<open>
  The board that the loops of \<open>initializeState\<close> build from a partition \<open>p\<close>: column after
  column takes the next \<open>n\<close> colours of \<open>se\<close>, starting at \<open>ci\<close>, and is filled up with
  \<open>null\<close>.
\<close>

fun towers_of :: "'a list \<Rightarrow> int \<Rightarrow> int list \<Rightarrow> int \<Rightarrow> 'a slot list list" where
  "towers_of se height [] ci = []"
| "towers_of se height (n # p) ci =
     (map Color (take (nat n) (drop (nat ci) se)) @ replicate (nat (height - n)) Null)
       # towers_of se height p (ci + n)"

text \<open>The colours at the bottom of a column, up to the first slot that holds none.\<close>

fun balls_of :: "'a slot list \<Rightarrow> 'a list" where
  "balls_of (Color c # rest) = c # balls_of rest"
| "balls_of column = []"

text \<open>
  A column of \<open>height\<close> slots whose colours form one run from row 0 with only \<open>null\<close>
  above it.
\<close>

definition tower :: "int \<Rightarrow> 'a slot list \<Rightarrow> bool" where
  "tower height column =
     (length column = nat height \<and>
      column = map Color (balls_of column) @ replicate (nat height - length (balls_of column)) Null)"

text \<open>
  Every column of the playable board is such a column, and the reference board has a
  column for every column index.
\<close>

definition stacked :: "'a game \<Rightarrow> bool" where
  "stacked g =
     (0 \<le> HEIGHT g \<and> length (state g) = nat (COLUMNS g) \<and>
      nat (COLUMNS g) \<le> length (referenceState g) \<and>
      (\<forall>column\<in>set (state g). tower (HEIGHT g) column))"

text \<open>The selected piece, if there is one, is the top piece of its column.\<close>

definition selection_on_top :: "'a game \<Rightarrow> bool" where
  "selection_on_top g =
     (case selectedPiece g of
        None \<Rightarrow> True
      | Some (column, row) \<Rightarrow>
          0 \<le> column \<and> column < COLUMNS g \<and> findTopPiece g column = Inr row \<and> row \<noteq> - 1)"

text \<open>The multiset of the colours on a board.\<close>

fun slot_colors :: "'a slot \<Rightarrow> 'a list" where
  "slot_colors (Color c) = [c]"
| "slot_colors v = []"

definition board_colors :: "'a slot list list \<Rightarrow> 'a multiset" where
  "board_colors board = mset (concat (map slot_colors (concat board)))"

section \<open>Hues and channels\<close>

text \<open>The colour that the loop of \<open>initializeColors\<close> pushes for index \<open>i\<close>.\<close>

definition hue_color :: "int \<Rightarrow> int \<Rightarrow> string" where
  "hue_color colorsLength i =
     hslToHex (js_rem (fl (real_of_int i * fl (360 / real_of_int colorsLength))) 360) 100 50"

text \<open>
  The integer that the closure \<open>f\<close> of \<open>hslToHex\<close> turns into two hex digits, at
  saturation 100 and lightness 50.
\<close>

definition channel :: "real \<Rightarrow> real \<Rightarrow> int" where
  "channel n h =
     (let k = js_rem (fl (n + fl (h / 30))) 12
      in Math_round (fl (255 * fl (1 / 2 - fl (1 / 2 *
           max (min (min (fl (k - 3)) (fl (9 - k))) 1) (- 1))))))"

text \<open>
  The three channels in exact arithmetic and before \<open>Math.round\<close>, as functions of the
  position \<open>T = 1530 * i / n\<close> of the hue on a circle of 1530 steps (the hue is
  \<open>T * 4 / 17\<close> degrees): each is constant at 0 or 255, or rises or falls with slope 1.
\<close>

definition vR :: "real \<Rightarrow> real" where
  "vR T = (if T < 255 then 255 else if T < 510 then 510 - T else if T < 1020 then 0
           else if T < 1275 then T - 1020 else 255)"

definition vG :: "real \<Rightarrow> real" where
  "vG T = (if T < 255 then T else if T < 765 then 255 else if T < 1020 then 1020 - T else 0)"

definition vB :: "real \<Rightarrow> real" where
  "vB T = (if T < 510 then 0 else if T < 765 then T - 510 else if T < 1275 then 255
           else 1530 - T)"

text \<open>The hue of index \<open>i\<close>, the local \<open>hue\<close> of the loop of \<open>initializeColors\<close>.\<close>

definition hue :: "int \<Rightarrow> int \<Rightarrow> real" where
  "hue n i = js_rem (fl (real_of_int i * fl (360 / real_of_int n))) 360"

text \<open>
  The relative error of one rounding to a double, and a bound of the absolute error
  that the roundings of \<open>initializeColors\<close> and \<open>hslToHex\<close> leave on a channel before
  \<open>Math.round\<close>.
\<close>

definition eps53 :: real where
  "eps53 = 1 / 2 ^ 53"

definition err :: real where
  "err = 30000 * eps53"

section \<open>Properties of rounding\<close>

lemma expo_le:
  assumes "x \<noteq> 0"
  shows "2 powi (expo x) \<le> \<bar>x\<bar>"
proof (cases "1 \<le> \<bar>x\<bar>")
  case True
  define N where "N = nat \<lfloor>\<bar>x\<bar>\<rfloor>"
  have N: "0 < N" using True by (simp add: N_def)
  have e: "expo x = int (floorlog 2 N - 1)"
  proof -
    have "0 < floorlog 2 N" using N by (simp add: floorlog_def)
    then show ?thesis using True by (simp add: expo_def N_def)
  qed
  have "2 ^ (floorlog 2 N - 1) \<le> N" using floorlog_bounds[of N 2] N by simp
  then have "(2::real) ^ (floorlog 2 N - 1) \<le> real N"
    by (metis of_nat_le_iff of_nat_numeral of_nat_power)
  also have "real N \<le> \<bar>x\<bar>" unfolding N_def using True by simp
  finally show ?thesis unfolding e by (simp add: power_int_def)
next
  case False
  define c where "c = \<lceil>1 / \<bar>x\<bar>\<rceil>"
  define M where "M = nat (c - 1)"
  define g where "g = floorlog 2 M"
  have x: "0 < \<bar>x\<bar>" "\<bar>x\<bar> < 1" using assms False by simp_all
  then have y: "1 < 1 / \<bar>x\<bar>" by simp
  then have c: "2 \<le> c" unfolding c_def by linarith
  then have M: "0 < M" by (simp add: M_def)
  have e: "expo x = - int g" using False by (simp add: expo_def M_def g_def c_def)
  have "M < 2 ^ g" unfolding g_def using floorlog_bounds[of M 2] M by simp
  then have "M + 1 \<le> 2 ^ g" by simp
  then have "real (M + 1) \<le> (2::real) ^ g"
    by (metis of_nat_le_iff of_nat_numeral of_nat_power)
  moreover have "1 / \<bar>x\<bar> \<le> real (M + 1)"
  proof -
    have "1 / \<bar>x\<bar> \<le> of_int c" unfolding c_def by (rule le_of_int_ceiling)
    also have "c = int (M + 1)" using c by (simp add: M_def)
    finally show ?thesis by simp
  qed
  ultimately have "1 / \<bar>x\<bar> \<le> (2::real) ^ g" by simp
  then have "1 \<le> (2::real) ^ g * \<bar>x\<bar>" using x(1) by (simp add: pos_divide_le_eq)
  then have "1 / (2::real) ^ g \<le> \<bar>x\<bar>" by (simp add: pos_divide_le_eq mult.commute)
  moreover have "(2::real) powi (- int g) = 1 / 2 ^ g"
    by (simp add: power_int_minus field_simps)
  ultimately show ?thesis unfolding e by simp
qed

lemma round_even_error: "\<bar>of_int (round_even m) - m\<bar> \<le> 1 / 2"
proof -
  have "of_int \<lfloor>m\<rfloor> \<le> m" "m < of_int \<lfloor>m\<rfloor> + 1" by linarith+
  then show ?thesis by (auto simp: round_even_def)
qed

lemma fl_error: "\<bar>fl x - x\<bar> \<le> \<bar>x\<bar> / 2 ^ 53"
proof (cases "x = 0")
  case True
  then show ?thesis by (simp add: fl_def)
next
  case False
  define e where "e = expo x"
  define u :: real where "u = 2 powi (e - 52)"
  define m where "m = x * 2 powi (52 - e)"
  have u: "0 < u" by (simp add: u_def)
  have inv: "2 powi (52 - e) * u = 1"
    unfolding u_def by (simp flip: power_int_add)
  have xm: "x = m * u" unfolding m_def using inv by (simp add: mult.assoc)
  have "fl x = of_int (round_even m) * u"
    using False unfolding fl_def m_def u_def e_def by simp
  then have "fl x - x = (of_int (round_even m) - m) * u"
    by (subst (2) xm) (simp add: algebra_simps)
  then have "\<bar>fl x - x\<bar> = \<bar>of_int (round_even m) - m\<bar> * u" using u by (simp add: abs_mult)
  also have "\<dots> \<le> 1 / 2 * u" using round_even_error[of m] u by (simp add: mult_right_mono)
  also have "1 / 2 * u = 2 powi e / 2 ^ 53"
  proof -
    have "(2::real) powi e = 2 powi (e - 52) * 2 ^ 52"
      using power_int_add[of "2::real" "e - 52" 52] by simp
    then show ?thesis unfolding u_def by simp
  qed
  also have "\<dots> \<le> \<bar>x\<bar> / 2 ^ 53" using expo_le[OF False] by (simp add: e_def divide_right_mono)
  finally show ?thesis .
qed

lemma fl_bounds:
  assumes "\<bar>x\<bar> \<le> B"
  shows "x - B / 2 ^ 53 \<le> fl x" "fl x \<le> x + B / 2 ^ 53"
proof -
  have "\<bar>fl x - x\<bar> \<le> B / 2 ^ 53"
    using fl_error[of x] assms by (meson divide_right_mono order_trans zero_le_numeral zero_le_power)
  then show "x - B / 2 ^ 53 \<le> fl x" "fl x \<le> x + B / 2 ^ 53" by linarith+
qed

lemma fl_nonneg:
  assumes "0 \<le> x"
  shows "0 \<le> fl x"
proof -
  have "x - x / 2 ^ 53 \<le> fl x" using fl_bounds(1)[of x x] assms by simp
  moreover have "0 \<le> x - x / 2 ^ 53" using assms by (simp add: field_simps)
  ultimately show ?thesis by linarith
qed

lemma fl_half: "fl (1 / 2) = 1 / 2"
  by code_simp

lemma fl_50: "fl 50 = 50"
  by code_simp

lemma eps53_pos: "0 < eps53"
  by (simp add: eps53_def)

lemma eps53_small: "eps53 \<le> 1 / 1000000000000000"
  by (simp add: eps53_def)

lemma fl_close:
  assumes "\<bar>x\<bar> \<le> B"
  shows "\<bar>fl x - x\<bar> \<le> B * eps53"
proof -
  have "x - B / 2 ^ 53 \<le> fl x" "fl x \<le> x + B / 2 ^ 53" by (rule fl_bounds[OF assms])+
  then have "\<bar>fl x - x\<bar> \<le> B / 2 ^ 53" by linarith
  then show ?thesis by (simp add: eps53_def)
qed

lemma err_bounds: "0 < err" "err \<le> 1 / 100000000"
  using eps53_pos eps53_small by (simp_all add: err_def)

section \<open>Properties of shuffle\<close>

lemma uniform_tail: "uniform s \<Longrightarrow> uniform (\<lambda>n. s (Suc n))"
  by (simp add: uniform_def)

lemma randomIndex_less:
  assumes "uniform s" "0 < i"
  shows "nat \<lfloor>fl (s 0 * real i)\<rfloor> < i"
proof -
  define x where "x = s 0 * real i"
  have u: "0 \<le> s 0" "s 0 \<le> 1 - 1 / 2 ^ 53" using assms(1) by (simp_all add: uniform_def)
  have x0: "0 \<le> x" using u(1) by (simp add: x_def)
  have "x \<le> (1 - 1 / 2 ^ 53) * real i"
    unfolding x_def using u(2) by (rule mult_right_mono) simp
  then have x1: "x \<le> real i - real i / 2 ^ 53" by (simp add: algebra_simps)
  have "fl x \<le> x + x / 2 ^ 53" using fl_bounds(2)[of x x] x0 by simp
  also have "\<dots> = x * (1 + 1 / 2 ^ 53)" by (simp add: algebra_simps)
  also have "\<dots> \<le> (real i - real i / 2 ^ 53) * (1 + 1 / 2 ^ 53)"
    using x1 by (rule mult_right_mono) simp
  also have "\<dots> = real i * (1 - 1 / 2 ^ 106)" by (simp add: algebra_simps)
  also have "\<dots> < real i" using assms(2) by (simp add: algebra_simps)
  finally have "fl x < real i" .
  then have "\<lfloor>fl x\<rfloor> < int i" by (simp add: floor_less_iff)
  then show ?thesis using assms(2) unfolding x_def by linarith
qed

lemma shuffle_loop_mset:
  "uniform s \<Longrightarrow> 0 < i \<Longrightarrow>
   mset (fst (shuffle_loop i xs s)) = mset xs \<and> uniform (snd (shuffle_loop i xs s))"
proof (induction i xs s rule: shuffle_loop.induct)
  case (1 i xs s)
  show ?case
  proof (cases "i < length xs")
    case False
    then show ?thesis using "1.prems" by (simp add: shuffle_loop.simps)
  next
    case True
    define j where "j = nat \<lfloor>fl (s 0 * real i)\<rfloor>"
    define ys where "ys = xs[i := xs ! j, j := xs ! i]"
    have j: "j < i" unfolding j_def using "1.prems" by (rule randomIndex_less)
    have m: "mset ys = mset xs" unfolding ys_def using j True by (simp add: mset_swap)
    have step: "shuffle_loop i xs s = shuffle_loop (Suc i) ys (\<lambda>n. s (Suc n))"
      using True by (subst shuffle_loop.simps) (simp add: Math_random_def j_def ys_def Let_def)
    have "mset (fst (shuffle_loop (Suc i) ys (\<lambda>n. s (Suc n)))) = mset ys
          \<and> uniform (snd (shuffle_loop (Suc i) ys (\<lambda>n. s (Suc n))))"
      using "1.IH"[OF True, of "s 0" "\<lambda>n. s (Suc n)" j] "1.prems" uniform_tail
      by (simp add: Math_random_def j_def ys_def)
    then show ?thesis using step m by simp
  qed
qed

lemma shuffle_mset: "uniform s \<Longrightarrow> mset (fst (shuffle xs s)) = mset xs"
  by (simp add: shuffle_def shuffle_loop_mset)

lemma shuffle_uniform: "uniform s \<Longrightarrow> uniform (snd (shuffle xs s))"
  by (simp add: shuffle_def shuffle_loop_mset)

lemma shuffle_loop_last:
  "uniform s \<Longrightarrow> 0 < i \<Longrightarrow> i < length xs \<Longrightarrow> distinct xs \<Longrightarrow>
   fst (shuffle_loop i xs s) ! (length xs - 1) \<noteq> xs ! (length xs - 1)"
proof (induction i xs s rule: shuffle_loop.induct)
  case (1 i xs s)
  define j where "j = nat \<lfloor>fl (s 0 * real i)\<rfloor>"
  define ys where "ys = xs[i := xs ! j, j := xs ! i]"
  have j: "j < i" unfolding j_def using "1.prems"(1,2) by (rule randomIndex_less)
  have il: "i < length xs" by (rule "1.prems"(3))
  have step: "shuffle_loop i xs s = shuffle_loop (Suc i) ys (\<lambda>n. s (Suc n))"
    using il by (subst shuffle_loop.simps) (simp add: Math_random_def j_def ys_def Let_def)
  have len: "length ys = length xs" by (simp add: ys_def)
  show ?case
  proof (cases "Suc i < length xs")
    case False
    then have i: "i = length xs - 1" using il by simp
    have "shuffle_loop (Suc i) ys (\<lambda>n. s (Suc n)) = (ys, \<lambda>n. s (Suc n))"
      using False len by (subst shuffle_loop.simps) simp
    then have "fst (shuffle_loop i xs s) ! (length xs - 1) = ys ! i"
      using step i by simp
    also have "\<dots> = xs ! j" using j il by (simp add: ys_def)
    also have "\<dots> \<noteq> xs ! i" using j il "1.prems"(4) by (simp add: nth_eq_iff_index_eq)
    finally show ?thesis using i by simp
  next
    case True
    have "mset ys = mset xs" unfolding ys_def using j il by (simp add: mset_swap)
    then have d: "distinct ys" using "1.prems"(4) by (metis mset_eq_imp_distinct_iff)
    have keep: "ys ! (length xs - 1) = xs ! (length xs - 1)"
      using True j by (simp add: ys_def)
    have "fst (shuffle_loop (Suc i) ys (\<lambda>n. s (Suc n))) ! (length ys - 1) \<noteq> ys ! (length ys - 1)"
      using "1.IH"[OF il, of "s 0" "\<lambda>n. s (Suc n)" j] "1.prems"(1) uniform_tail True d len
      by (simp add: Math_random_def j_def ys_def)
    then show ?thesis using step keep len by simp
  qed
qed

text \<open>
  Claim C4. The spec describes \<open>shuffle\<close> as drawing the index \<open>j\<close> from \<open>[0, i]\<close>, so
  that \<open>j = i\<close> and hence the identity permutation are possible. The loop draws
  \<open>Math.floor(Math.random() * currentIndex)\<close>, which is always below \<open>currentIndex\<close>
  (\<open>randomIndex_less\<close>): the element that starts in the last position never stays there,
  and an array of two or more distinct elements is never returned in its original order.
\<close>

theorem shuffle_never_identity:
  assumes "uniform s" "2 \<le> length xs" "distinct xs"
  shows "fst (shuffle xs s) \<noteq> xs"
  using shuffle_loop_last[of s 1 xs] assms by (auto simp: shuffle_def)

theorem shuffle_never_identity_witness:
  "uniform (\<lambda>_. 1/2) \<and> fst (shuffle [0::int, 1] (\<lambda>_. 1/2)) = [1, 0] \<and> fst (shuffle [0::int, 1] (\<lambda>_. 1/2)) \<noteq> [0, 1]"
proof -
  have u: "uniform (\<lambda>_. 1/2)" by (simp add: uniform_def)
  have e: "fst (shuffle [0::int, 1] (\<lambda>_. 1/2)) = [1, 0]" by code_simp
  show ?thesis using shuffle_never_identity[OF u, of "[0::int, 1]"] u e by simp
qed

section \<open>Properties of initializeColors\<close>

lemma js_rem_small:
  assumes "0 \<le> a" "a < b"
  shows "js_rem a b = a"
proof -
  have b: "0 < b" using assms by simp
  have "0 \<le> a / b" "a / b < 1" using assms b by simp_all
  then have "\<lfloor>a / b\<rfloor> = 0" by linarith
  then show ?thesis using \<open>0 \<le> a / b\<close> by (simp add: js_rem_def)
qed

lemma js_rem_wrap:
  assumes "b \<le> a" "a < 2 * b" "0 < b"
  shows "js_rem a b = a - b"
proof -
  have "1 \<le> a / b" "a / b < 2" using assms by (simp_all add: pos_le_divide_eq pos_divide_less_eq)
  then have "\<lfloor>a / b\<rfloor> = 1" by linarith
  then show ?thesis using \<open>1 \<le> a / b\<close> by (simp add: js_rem_def)
qed

lemma hslToHex_channels:
  "hslToHex h 100 50 =
     ''#'' @ padStart2 (toString16 (channel 0 h)) @ padStart2 (toString16 (channel 8 h))
           @ padStart2 (toString16 (channel 4 h))"
  by (simp add: hslToHex_def Let_def channel_def fl_half fl_50)

lemma hue_close:
  assumes "1 \<le> n" "n \<le> 1531" "0 \<le> i" "i < n"
  shows "\<bar>js_rem (fl (real_of_int i * fl (360 / real_of_int n))) 360
          - 360 * real_of_int i / real_of_int n\<bar> \<le> 721 * eps53"
    and "0 \<le> js_rem (fl (real_of_int i * fl (360 / real_of_int n))) 360"
proof -
  note d = eps53_pos eps53_small
  define q where "q = fl (360 / real_of_int n)"
  define H where "H = 360 * real_of_int i / real_of_int n"
  define p where "p = real_of_int i * q"
  have n: "0 < real_of_int n" "real_of_int n \<le> 1531" using assms(1,2) by simp_all
  have i: "0 \<le> real_of_int i" "real_of_int i \<le> real_of_int n - 1" using assms(3,4) by simp_all
  have H0: "0 \<le> H" using i n by (simp add: H_def)
  define r where "r = (real_of_int n - real_of_int i) / real_of_int n"
  have "H = 360 - 360 * r" using n by (simp add: H_def r_def field_simps)
  moreover have "1 / 1531 \<le> r" using n i by (simp add: r_def field_simps)
  ultimately have H1: "H \<le> 360 - 360 / 1531" by linarith
  have q0: "0 \<le> q" unfolding q_def using n by (intro fl_nonneg) simp
  have e: "\<bar>q - 360 / real_of_int n\<bar> \<le> \<bar>360 / real_of_int n\<bar> / 2 ^ 53"
    unfolding q_def by (rule fl_error)
  have "p - H = real_of_int i * (q - 360 / real_of_int n)"
    by (simp add: p_def H_def algebra_simps)
  then have "\<bar>p - H\<bar> = real_of_int i * \<bar>q - 360 / real_of_int n\<bar>"
    using i(1) by (simp add: abs_mult)
  also have "\<dots> \<le> real_of_int i * (\<bar>360 / real_of_int n\<bar> / 2 ^ 53)"
    using e i(1) by (rule mult_left_mono)
  also have "\<dots> = H * eps53" using n by (simp add: H_def eps53_def)
  also have "\<dots> \<le> 360 * eps53" using H1 d(1) by simp
  finally have pH: "\<bar>p - H\<bar> \<le> 360 * eps53" .
  have p0: "0 \<le> p" using i(1) q0 by (simp add: p_def)
  have "\<bar>p\<bar> \<le> 361" using pH H0 H1 d by linarith
  then have "\<bar>fl p - p\<bar> \<le> 361 * eps53" by (rule fl_close)
  then have c: "\<bar>fl p - H\<bar> \<le> 721 * eps53" using pH by linarith
  have f0: "0 \<le> fl p" using p0 by (rule fl_nonneg)
  have "fl p < 360" using c H1 d by linarith
  then have "js_rem (fl p) 360 = fl p" using f0 by (intro js_rem_small)
  then show "\<bar>js_rem (fl (real_of_int i * fl (360 / real_of_int n))) 360
          - 360 * real_of_int i / real_of_int n\<bar> \<le> 721 * eps53"
    and "0 \<le> js_rem (fl (real_of_int i * fl (360 / real_of_int n))) 360"
    using c f0 by (simp_all add: p_def q_def H_def)
qed

lemma clamp_lipschitz:
  fixes a b A B e :: real
  assumes "\<bar>a - A\<bar> \<le> e" "\<bar>b - B\<bar> \<le> e"
  shows "\<bar>max (min (min a b) 1) (- 1) - max (min (min A B) 1) (- 1)\<bar> \<le> e"
  using assms by (auto simp: min_def max_def abs_le_iff)

lemma clamp_low:
  fixes a b :: real
  assumes "a \<le> - 1 \<or> b \<le> - 1"
  shows "max (min (min a b) 1) (- 1) = - 1"
  using assms by (auto simp: min_def max_def)

lemma clamp_range:
  fixes a b :: real
  shows "- 1 \<le> max (min (min a b) 1) (- 1)" "max (min (min a b) 1) (- 1) \<le> 1"
  by (auto simp: min_def max_def)

lemma clamp_close:
  assumes "0 \<le> Y" "Y \<le> 20" "\<bar>y - Y\<bar> \<le> 100 * eps53" "0 \<le> y"
  shows "\<bar>max (min (min (fl (js_rem y 12 - 3)) (fl (9 - js_rem y 12))) 1) (- 1)
          - max (min (min (js_rem Y 12 - 3) (9 - js_rem Y 12)) 1) (- 1)\<bar> \<le> 200 * eps53"
proof -
  note d = eps53_pos eps53_small
  define k where "k = js_rem y 12"
  define K where "K = js_rem Y 12"
  have y24: "y < 24" using assms(2,3) d by linarith
  have k: "k = (if y < 12 then y else y - 12)"
    unfolding k_def using assms(4) y24 by (auto simp: js_rem_small js_rem_wrap)
  have K: "K = (if Y < 12 then Y else Y - 12)"
    unfolding K_def using assms(1,2) by (auto simp: js_rem_small js_rem_wrap)
  have kr: "0 \<le> k" "k < 12" using k assms(4) y24 by (auto split: if_splits)
  have "\<bar>k - 3\<bar> \<le> 9" "\<bar>9 - k\<bar> \<le> 9" using kr by linarith+
  then have d1: "\<bar>fl (k - 3) - (k - 3)\<bar> \<le> 9 * eps53"
    and d2: "\<bar>fl (9 - k) - (9 - k)\<bar> \<le> 9 * eps53"
    by (simp_all only: fl_close)
  consider (same) "y < 12 \<longleftrightarrow> Y < 12" | (up) "12 \<le> y" "Y < 12" | (down) "y < 12" "12 \<le> Y"
    by linarith
  then have "\<bar>max (min (min (fl (k - 3)) (fl (9 - k))) 1) (- 1)
          - max (min (min (K - 3) (9 - K)) 1) (- 1)\<bar> \<le> 200 * eps53"
  proof cases
    case same
    then have "\<bar>k - K\<bar> \<le> 100 * eps53" using k K assms(3) by (auto split: if_splits)
    then have "\<bar>fl (k - 3) - (K - 3)\<bar> \<le> 200 * eps53" "\<bar>fl (9 - k) - (9 - K)\<bar> \<le> 200 * eps53"
      using d1 d2 d by linarith+
    then show ?thesis by (rule clamp_lipschitz)
  next
    case up
    have "k \<le> 100 * eps53" using k up assms(3) by simp
    then have "fl (k - 3) \<le> - 1" using d1 d by linarith
    then have a: "max (min (min (fl (k - 3)) (fl (9 - k))) 1) (- 1) = - 1"
      by (intro clamp_low) simp
    have "12 - 100 * eps53 \<le> K" using K up assms(3) by simp
    then have "9 - K \<le> - 1" using d by linarith
    then have b: "max (min (min (K - 3) (9 - K)) 1) (- 1) = - 1"
      by (intro clamp_low) simp
    show ?thesis unfolding a b using d by simp
  next
    case down
    have "12 - 100 * eps53 \<le> k" using k down assms(3) by simp
    then have "fl (9 - k) \<le> - 1" using d2 d by linarith
    then have a: "max (min (min (fl (k - 3)) (fl (9 - k))) 1) (- 1) = - 1"
      by (intro clamp_low) simp
    have "K \<le> 100 * eps53" using K down assms(3) by simp
    then have "K - 3 \<le> - 1" using d by linarith
    then have b: "max (min (min (K - 3) (9 - K)) 1) (- 1) = - 1"
      by (intro clamp_low) simp
    show ?thesis unfolding a b using d by simp
  qed
  then show ?thesis unfolding k_def K_def .
qed

lemma value_close:
  assumes "\<bar>c - C\<bar> \<le> 200 * eps53" "- 1 \<le> c" "c \<le> 1"
  shows "\<bar>fl (255 * fl (1 / 2 - fl (1 / 2 * c))) - 255 * (1 / 2 - 1 / 2 * C)\<bar> \<le> 30000 * eps53"
proof -
  note d = eps53_pos eps53_small
  define p where "p = fl (1 / 2 * c)"
  define q where "q = fl (1 / 2 - p)"
  have "\<bar>1 / 2 * c\<bar> \<le> 1" using assms(2,3) by simp
  then have p: "\<bar>p - 1 / 2 * c\<bar> \<le> 1 * eps53" unfolding p_def by (rule fl_close)
  have "\<bar>1 / 2 - p\<bar> \<le> 2" using p assms(2,3) d by linarith
  then have q: "\<bar>q - (1 / 2 - p)\<bar> \<le> 2 * eps53" unfolding q_def by (rule fl_close)
  have "\<bar>255 * q\<bar> \<le> 300" using q p assms(2,3) d by linarith
  then have z: "\<bar>fl (255 * q) - 255 * q\<bar> \<le> 300 * eps53" by (rule fl_close)
  have qc: "\<bar>q - (1 / 2 - 1 / 2 * C)\<bar> \<le> 103 * eps53"
    using q p assms(1) unfolding abs_le_iff by linarith
  have "\<bar>fl (255 * q) - 255 * (1 / 2 - 1 / 2 * C)\<bar> \<le> 30000 * eps53"
    using z qc d(1) unfolding abs_le_iff by argo
  then show ?thesis unfolding q_def p_def .
qed

lemma exact_R:
  assumes "0 \<le> T" "T < 1530"
  shows "255 * (1 / 2 - 1 / 2 * max (min (min (js_rem (0 + T * 4 / 17 / 30) 12 - 3)
           (9 - js_rem (0 + T * 4 / 17 / 30) 12)) 1) (- 1)) = vR T"
proof -
  have k: "js_rem (0 + T * 4 / 17 / 30) 12 = T * 2 / 255"
    using assms by (subst js_rem_small) simp_all
  have "255 * (1 / 2 - 1 / 2 * max (min (min (T * 2 / 255 - 3) (9 - T * 2 / 255)) 1) (- 1)) = vR T"
    using assms by (auto simp: vR_def min_def max_def field_simps)
  then show ?thesis unfolding k .
qed

lemma exact_G:
  assumes "0 \<le> T" "T < 1530"
  shows "255 * (1 / 2 - 1 / 2 * max (min (min (js_rem (8 + T * 4 / 17 / 30) 12 - 3)
           (9 - js_rem (8 + T * 4 / 17 / 30) 12)) 1) (- 1)) = vG T"
proof (cases "T < 510")
  case True
  have k: "js_rem (8 + T * 4 / 17 / 30) 12 = 8 + T * 2 / 255"
    using assms True by (subst js_rem_small) simp_all
  have "255 * (1 / 2 - 1 / 2 * max (min (min (8 + T * 2 / 255 - 3) (9 - (8 + T * 2 / 255))) 1) (- 1)) = vG T"
    using assms True by (auto simp: vG_def min_def max_def field_simps)
  then show ?thesis unfolding k .
next
  case False
  have k: "js_rem (8 + T * 4 / 17 / 30) 12 = T * 2 / 255 - 4"
    using assms False by (subst js_rem_wrap) simp_all
  have "255 * (1 / 2 - 1 / 2 * max (min (min (T * 2 / 255 - 4 - 3) (9 - (T * 2 / 255 - 4))) 1) (- 1)) = vG T"
    using assms False by (auto simp: vG_def min_def max_def field_simps)
  then show ?thesis unfolding k .
qed

lemma exact_B:
  assumes "0 \<le> T" "T < 1530"
  shows "255 * (1 / 2 - 1 / 2 * max (min (min (js_rem (4 + T * 4 / 17 / 30) 12 - 3)
           (9 - js_rem (4 + T * 4 / 17 / 30) 12)) 1) (- 1)) = vB T"
proof (cases "T < 1020")
  case True
  have k: "js_rem (4 + T * 4 / 17 / 30) 12 = 4 + T * 2 / 255"
    using assms True by (subst js_rem_small) simp_all
  have "255 * (1 / 2 - 1 / 2 * max (min (min (4 + T * 2 / 255 - 3) (9 - (4 + T * 2 / 255))) 1) (- 1)) = vB T"
    using assms True by (auto simp: vB_def min_def max_def field_simps)
  then show ?thesis unfolding k .
next
  case False
  have k: "js_rem (4 + T * 4 / 17 / 30) 12 = T * 2 / 255 - 8"
    using assms False by (subst js_rem_wrap) simp_all
  have "255 * (1 / 2 - 1 / 2 * max (min (min (T * 2 / 255 - 8 - 3) (9 - (T * 2 / 255 - 8))) 1) (- 1)) = vB T"
    using assms False by (auto simp: vB_def min_def max_def field_simps)
  then show ?thesis unfolding k .
qed

lemma channel_close:
  assumes "0 \<le> h" "\<bar>h - H\<bar> \<le> 721 * eps53" "0 \<le> H" "H < 360" "0 \<le> m" "m \<le> 8"
  shows "\<exists>w. channel m h = \<lfloor>w + 1 / 2\<rfloor> \<and>
           \<bar>w - 255 * (1 / 2 - 1 / 2 * max (min (min (js_rem (m + H / 30) 12 - 3)
                 (9 - js_rem (m + H / 30) 12)) 1) (- 1))\<bar> \<le> 30000 * eps53"
proof -
  note d = eps53_pos eps53_small
  define x where "x = fl (h / 30)"
  define y where "y = fl (m + x)"
  have "\<bar>h / 30\<bar> \<le> 13" using assms(1-4) d by simp linarith?
  then have "\<bar>x - h / 30\<bar> \<le> 13 * eps53" unfolding x_def by (rule fl_close)
  then have xX: "\<bar>x - H / 30\<bar> \<le> 40 * eps53" using assms(2) by simp linarith?
  have x0: "0 \<le> x" unfolding x_def using assms(1) by (intro fl_nonneg) simp
  have "\<bar>m + x\<bar> \<le> 21" using xX x0 assms(3-6) d by simp linarith?
  then have "\<bar>y - (m + x)\<bar> \<le> 21 * eps53" unfolding y_def by (rule fl_close)
  then have yY: "\<bar>y - (m + H / 30)\<bar> \<le> 100 * eps53" using xX d by linarith
  have y0: "0 \<le> y" unfolding y_def using x0 assms(5) by (intro fl_nonneg) simp
  have Y: "0 \<le> m + H / 30" "m + H / 30 \<le> 20" using assms(3-6) by simp_all
  define c where "c = max (min (min (fl (js_rem y 12 - 3)) (fl (9 - js_rem y 12))) 1) (- 1)"
  define C where "C = max (min (min (js_rem (m + H / 30) 12 - 3) (9 - js_rem (m + H / 30) 12)) 1) (- 1)"
  have cC: "\<bar>c - C\<bar> \<le> 200 * eps53" unfolding c_def C_def by (rule clamp_close[OF Y yY y0])
  have cr: "- 1 \<le> c" "c \<le> 1" unfolding c_def by (rule clamp_range)+
  have "\<bar>fl (255 * fl (1 / 2 - fl (1 / 2 * c))) - 255 * (1 / 2 - 1 / 2 * C)\<bar> \<le> 30000 * eps53"
    by (rule value_close[OF cC cr])
  moreover have "channel m h = \<lfloor>fl (255 * fl (1 / 2 - fl (1 / 2 * c))) + 1 / 2\<rfloor>"
    by (simp only: channel_def Let_def Math_round_def c_def y_def x_def)
  ultimately show ?thesis unfolding C_def by blast
qed

lemma channels_close:
  assumes "1 \<le> n" "n \<le> 1531" "0 \<le> i" "i < n"
  defines "h \<equiv> js_rem (fl (real_of_int i * fl (360 / real_of_int n))) 360"
  defines "T \<equiv> 1530 * real_of_int i / real_of_int n"
  shows "\<exists>w. channel 0 h = \<lfloor>w + 1 / 2\<rfloor> \<and> \<bar>w - vR T\<bar> \<le> 30000 * eps53"
    and "\<exists>w. channel 8 h = \<lfloor>w + 1 / 2\<rfloor> \<and> \<bar>w - vG T\<bar> \<le> 30000 * eps53"
    and "\<exists>w. channel 4 h = \<lfloor>w + 1 / 2\<rfloor> \<and> \<bar>w - vB T\<bar> \<le> 30000 * eps53"
proof -
  have n: "0 < real_of_int n" using assms(1) by simp
  have T0: "0 \<le> T" using assms(3) n by (simp add: T_def)
  have "real_of_int i < real_of_int n" using assms(4) by simp
  then have T1: "T < 1530" using n by (simp add: T_def field_simps)
  have H: "360 * real_of_int i / real_of_int n = T * 4 / 17" by (simp add: T_def)
  have h: "0 \<le> h" "\<bar>h - T * 4 / 17\<bar> \<le> 721 * eps53"
    unfolding h_def using hue_close[OF assms(1-4)] H by simp_all
  have H0: "0 \<le> T * 4 / 17" "T * 4 / 17 < 360" using T0 T1 by simp_all
  show "\<exists>w. channel 0 h = \<lfloor>w + 1 / 2\<rfloor> \<and> \<bar>w - vR T\<bar> \<le> 30000 * eps53"
    using channel_close[OF h H0, of 0] unfolding exact_R[OF T0 T1] by simp
  show "\<exists>w. channel 8 h = \<lfloor>w + 1 / 2\<rfloor> \<and> \<bar>w - vG T\<bar> \<le> 30000 * eps53"
    using channel_close[OF h H0, of 8] unfolding exact_G[OF T0 T1] by simp
  show "\<exists>w. channel 4 h = \<lfloor>w + 1 / 2\<rfloor> \<and> \<bar>w - vB T\<bar> \<le> 30000 * eps53"
    using channel_close[OF h H0, of 4] unfolding exact_B[OF T0 T1] by simp
qed

lemma near_facts:
  fixes v e :: real
  assumes "\<exists>w. k = \<lfloor>w + 1 / 2\<rfloor> \<and> \<bar>w - v\<bar> \<le> e" "e \<le> 1 / 4"
  shows "of_int k \<le> v + 1 / 2 + e" "v + 1 / 2 - e < of_int k + 1"
    and "v = 0 \<Longrightarrow> k = 0" "v = 255 \<Longrightarrow> k = 255"
proof -
  obtain w where k: "k = \<lfloor>w + 1 / 2\<rfloor>" and w: "\<bar>w - v\<bar> \<le> e" using assms(1) by blast
  have "of_int k \<le> w + 1 / 2" "w + 1 / 2 < of_int k + 1" unfolding k by linarith+
  then show "of_int k \<le> v + 1 / 2 + e" "v + 1 / 2 - e < of_int k + 1" using w by linarith+
  show "k = 0" if "v = 0"
  proof -
    have "0 \<le> w + 1 / 2" "w + 1 / 2 < 1" using w that assms(2) by linarith+
    then show ?thesis unfolding k by linarith
  qed
  show "k = 255" if "v = 255"
  proof -
    have "255 \<le> w + 1 / 2" "w + 1 / 2 < 256" using w that assms(2) by linarith+
    then show ?thesis unfolding k by linarith
  qed
qed

lemma near_floor:
  fixes v e :: real
  assumes "\<exists>w. k = \<lfloor>w + 1 / 2\<rfloor> \<and> \<bar>w - v\<bar> \<le> e"
    and "of_int c \<le> v + 1 / 2 - e" "v + 1 / 2 + e < of_int d + 1"
  shows "c \<le> k" "k \<le> d"
proof -
  obtain w where k: "k = \<lfloor>w + 1 / 2\<rfloor>" and w: "\<bar>w - v\<bar> \<le> e" using assms(1) by blast
  have "of_int c \<le> w + 1 / 2" using w assms(2) by linarith
  then show "c \<le> k" unfolding k by (simp add: le_floor_iff)
  have "w + 1 / 2 < of_int d + 1" using w assms(3) by linarith
  then have "w + 1 / 2 < of_int (d + 1)" by simp
  then have "\<lfloor>w + 1 / 2\<rfloor> < d + 1" by (simp only: floor_less_iff)
  then show "k \<le> d" unfolding k by simp
qed

lemma round_near:
  fixes v e :: real
  assumes "v \<in> \<int>" "\<exists>w. k = \<lfloor>w + 1 / 2\<rfloor> \<and> \<bar>w - v\<bar> \<le> e" "e \<le> 1 / 4"
  shows "of_int k = v"
proof -
  obtain w where k: "k = \<lfloor>w + 1 / 2\<rfloor>" and w: "\<bar>w - v\<bar> \<le> e" using assms(2) by blast
  obtain j where j: "v = of_int j" using assms(1) by (rule Ints_cases)
  have "of_int j \<le> w + 1 / 2" "w + 1 / 2 < of_int j + 1" using w assms(3) j by linarith+
  then have "\<lfloor>w + 1 / 2\<rfloor> = j" by linarith
  then show ?thesis using j k by simp
qed

lemma distinct_channels:
  fixes T T' e :: real
  assumes "0 \<le> T" "T + 1 + 3 * e \<le> T'" "T' + 3 * e \<le> T + 1529" "T' < 1530"
    and "0 < e" "e \<le> 1 / 4"
    and "\<exists>w. kR = \<lfloor>w + 1 / 2\<rfloor> \<and> \<bar>w - vR T\<bar> \<le> e"
    and "\<exists>w. kR = \<lfloor>w + 1 / 2\<rfloor> \<and> \<bar>w - vR T'\<bar> \<le> e"
    and "\<exists>w. kG = \<lfloor>w + 1 / 2\<rfloor> \<and> \<bar>w - vG T\<bar> \<le> e"
    and "\<exists>w. kG = \<lfloor>w + 1 / 2\<rfloor> \<and> \<bar>w - vG T'\<bar> \<le> e"
    and "\<exists>w. kB = \<lfloor>w + 1 / 2\<rfloor> \<and> \<bar>w - vB T\<bar> \<le> e"
    and "\<exists>w. kB = \<lfloor>w + 1 / 2\<rfloor> \<and> \<bar>w - vB T'\<bar> \<le> e"
  shows False
proof -
  note f = near_facts[OF assms(7) assms(6)] near_facts[OF assms(8) assms(6)]
    near_facts[OF assms(9) assms(6)] near_facts[OF assms(10) assms(6)]
    near_facts[OF assms(11) assms(6)] near_facts[OF assms(12) assms(6)]
  have t: "T < T'" using assms(2,5) by linarith
  have c00: False if "0 \<le> T" "T < 255" "0 \<le> T'" "T' < 255"
    using that f assms(2,3,5) by (simp add: vR_def vG_def vB_def) linarith?
  have c01: False if "0 \<le> T" "T < 255" "255 \<le> T'" "T' < 510"
    using that f assms(2,3,5) by (simp add: vR_def vG_def vB_def) linarith?
  have c02: False if "0 \<le> T" "T < 255" "510 \<le> T'" "T' < 765"
    using that f assms(2,3,5) by (simp add: vR_def vG_def vB_def) linarith?
  have c03: False if "0 \<le> T" "T < 255" "765 \<le> T'" "T' < 1020"
    using that f assms(2,3,5) by (simp add: vR_def vG_def vB_def) linarith?
  have c04: False if "0 \<le> T" "T < 255" "1020 \<le> T'" "T' < 1275"
    using that f assms(2,3,5) by (simp add: vR_def vG_def vB_def) linarith?
  have c05: False if "0 \<le> T" "T < 255" "1275 \<le> T'" "T' < 1530"
    using that f assms(2,3,5) by (simp add: vR_def vG_def vB_def) linarith?
  have c10: False if "255 \<le> T" "T < 510" "0 \<le> T'" "T' < 255"
    using that t by linarith
  have c11: False if "255 \<le> T" "T < 510" "255 \<le> T'" "T' < 510"
    using that f assms(2,3,5) by (simp add: vR_def vG_def vB_def) linarith?
  have c12: False if "255 \<le> T" "T < 510" "510 \<le> T'" "T' < 765"
    using that f assms(2,3,5) by (simp add: vR_def vG_def vB_def) linarith?
  have c13: False if "255 \<le> T" "T < 510" "765 \<le> T'" "T' < 1020"
    using that f assms(2,3,5) by (simp add: vR_def vG_def vB_def) linarith?
  have c14: False if "255 \<le> T" "T < 510" "1020 \<le> T'" "T' < 1275"
    using that f assms(2,3,5) by (simp add: vR_def vG_def vB_def) linarith?
  have c15: False if "255 \<le> T" "T < 510" "1275 \<le> T'" "T' < 1530"
    using that f assms(2,3,5) by (simp add: vR_def vG_def vB_def) linarith?
  have c20: False if "510 \<le> T" "T < 765" "0 \<le> T'" "T' < 255"
    using that t by linarith
  have c21: False if "510 \<le> T" "T < 765" "255 \<le> T'" "T' < 510"
    using that t by linarith
  have c22: False if "510 \<le> T" "T < 765" "510 \<le> T'" "T' < 765"
    using that f assms(2,3,5) by (simp add: vR_def vG_def vB_def) linarith?
  have c23: False if "510 \<le> T" "T < 765" "765 \<le> T'" "T' < 1020"
    using that f assms(2,3,5) by (simp add: vR_def vG_def vB_def) linarith?
  have c24: False if "510 \<le> T" "T < 765" "1020 \<le> T'" "T' < 1275"
    using that f assms(2,3,5) by (simp add: vR_def vG_def vB_def) linarith?
  have c25: False if "510 \<le> T" "T < 765" "1275 \<le> T'" "T' < 1530"
    using that f assms(2,3,5) by (simp add: vR_def vG_def vB_def) linarith?
  have c30: False if "765 \<le> T" "T < 1020" "0 \<le> T'" "T' < 255"
    using that t by linarith
  have c31: False if "765 \<le> T" "T < 1020" "255 \<le> T'" "T' < 510"
    using that t by linarith
  have c32: False if "765 \<le> T" "T < 1020" "510 \<le> T'" "T' < 765"
    using that t by linarith
  have c33: False if "765 \<le> T" "T < 1020" "765 \<le> T'" "T' < 1020"
    using that f assms(2,3,5) by (simp add: vR_def vG_def vB_def) linarith?
  have c34: False if "765 \<le> T" "T < 1020" "1020 \<le> T'" "T' < 1275"
    using that f assms(2,3,5) by (simp add: vR_def vG_def vB_def) linarith?
  have c35: False if "765 \<le> T" "T < 1020" "1275 \<le> T'" "T' < 1530"
    using that f assms(2,3,5) by (simp add: vR_def vG_def vB_def) linarith?
  have c40: False if "1020 \<le> T" "T < 1275" "0 \<le> T'" "T' < 255"
    using that t by linarith
  have c41: False if "1020 \<le> T" "T < 1275" "255 \<le> T'" "T' < 510"
    using that t by linarith
  have c42: False if "1020 \<le> T" "T < 1275" "510 \<le> T'" "T' < 765"
    using that t by linarith
  have c43: False if "1020 \<le> T" "T < 1275" "765 \<le> T'" "T' < 1020"
    using that t by linarith
  have c44: False if "1020 \<le> T" "T < 1275" "1020 \<le> T'" "T' < 1275"
    using that f assms(2,3,5) by (simp add: vR_def vG_def vB_def) linarith?
  have c45: False if "1020 \<le> T" "T < 1275" "1275 \<le> T'" "T' < 1530"
    using that f assms(2,3,5) by (simp add: vR_def vG_def vB_def) linarith?
  have c50: False if "1275 \<le> T" "T < 1530" "0 \<le> T'" "T' < 255"
    using that t by linarith
  have c51: False if "1275 \<le> T" "T < 1530" "255 \<le> T'" "T' < 510"
    using that t by linarith
  have c52: False if "1275 \<le> T" "T < 1530" "510 \<le> T'" "T' < 765"
    using that t by linarith
  have c53: False if "1275 \<le> T" "T < 1530" "765 \<le> T'" "T' < 1020"
    using that t by linarith
  have c54: False if "1275 \<le> T" "T < 1530" "1020 \<le> T'" "T' < 1275"
    using that t by linarith
  have c55: False if "1275 \<le> T" "T < 1530" "1275 \<le> T'" "T' < 1530"
    using that f assms(2,3,5) by (simp add: vR_def vG_def vB_def) linarith?
  have sT: "(0 \<le> T \<and> T < 255) \<or> (255 \<le> T \<and> T < 510) \<or> (510 \<le> T \<and> T < 765) \<or> (765 \<le> T \<and> T < 1020) \<or> (1020 \<le> T \<and> T < 1275) \<or> (1275 \<le> T \<and> T < 1530)"
    using assms(1,4) t by linarith
  have sT': "(0 \<le> T' \<and> T' < 255) \<or> (255 \<le> T' \<and> T' < 510) \<or> (510 \<le> T' \<and> T' < 765) \<or> (765 \<le> T' \<and> T' < 1020) \<or> (1020 \<le> T' \<and> T' < 1275) \<or> (1275 \<le> T' \<and> T' < 1530)"
    using assms(1,4) t by linarith
  have r0: False if "0 \<le> T" "T < 255"
    using sT' c00[OF that] c01[OF that] c02[OF that] c03[OF that] c04[OF that] c05[OF that] by blast
  have r1: False if "255 \<le> T" "T < 510"
    using sT' c10[OF that] c11[OF that] c12[OF that] c13[OF that] c14[OF that] c15[OF that] by blast
  have r2: False if "510 \<le> T" "T < 765"
    using sT' c20[OF that] c21[OF that] c22[OF that] c23[OF that] c24[OF that] c25[OF that] by blast
  have r3: False if "765 \<le> T" "T < 1020"
    using sT' c30[OF that] c31[OF that] c32[OF that] c33[OF that] c34[OF that] c35[OF that] by blast
  have r4: False if "1020 \<le> T" "T < 1275"
    using sT' c40[OF that] c41[OF that] c42[OF that] c43[OF that] c44[OF that] c45[OF that] by blast
  have r5: False if "1275 \<le> T" "T < 1530"
    using sT' c50[OF that] c51[OF that] c52[OF that] c53[OF that] c54[OF that] c55[OF that] by blast
  show False
    using sT r0 r1 r2 r3 r4 r5 by blast
qed

lemma v_injective:
  assumes "0 \<le> T" "T < T'" "T' < 1530"
    and "vR T = vR T'" "vG T = vG T'" "vB T = vB T'"
  shows False
proof -
  note f = assms(4,5,6)
  note t = assms(2)
  have c00: False if "0 \<le> T" "T < 255" "0 \<le> T'" "T' < 255"
    using that f t by (simp add: vR_def vG_def vB_def) linarith?
  have c01: False if "0 \<le> T" "T < 255" "255 \<le> T'" "T' < 510"
    using that f t by (simp add: vR_def vG_def vB_def) linarith?
  have c02: False if "0 \<le> T" "T < 255" "510 \<le> T'" "T' < 765"
    using that f t by (simp add: vR_def vG_def vB_def) linarith?
  have c03: False if "0 \<le> T" "T < 255" "765 \<le> T'" "T' < 1020"
    using that f t by (simp add: vR_def vG_def vB_def) linarith?
  have c04: False if "0 \<le> T" "T < 255" "1020 \<le> T'" "T' < 1275"
    using that f t by (simp add: vR_def vG_def vB_def) linarith?
  have c05: False if "0 \<le> T" "T < 255" "1275 \<le> T'" "T' < 1530"
    using that f t by (simp add: vR_def vG_def vB_def) linarith?
  have c10: False if "255 \<le> T" "T < 510" "0 \<le> T'" "T' < 255"
    using that t by linarith
  have c11: False if "255 \<le> T" "T < 510" "255 \<le> T'" "T' < 510"
    using that f t by (simp add: vR_def vG_def vB_def) linarith?
  have c12: False if "255 \<le> T" "T < 510" "510 \<le> T'" "T' < 765"
    using that f t by (simp add: vR_def vG_def vB_def) linarith?
  have c13: False if "255 \<le> T" "T < 510" "765 \<le> T'" "T' < 1020"
    using that f t by (simp add: vR_def vG_def vB_def) linarith?
  have c14: False if "255 \<le> T" "T < 510" "1020 \<le> T'" "T' < 1275"
    using that f t by (simp add: vR_def vG_def vB_def) linarith?
  have c15: False if "255 \<le> T" "T < 510" "1275 \<le> T'" "T' < 1530"
    using that f t by (simp add: vR_def vG_def vB_def) linarith?
  have c20: False if "510 \<le> T" "T < 765" "0 \<le> T'" "T' < 255"
    using that t by linarith
  have c21: False if "510 \<le> T" "T < 765" "255 \<le> T'" "T' < 510"
    using that t by linarith
  have c22: False if "510 \<le> T" "T < 765" "510 \<le> T'" "T' < 765"
    using that f t by (simp add: vR_def vG_def vB_def) linarith?
  have c23: False if "510 \<le> T" "T < 765" "765 \<le> T'" "T' < 1020"
    using that f t by (simp add: vR_def vG_def vB_def) linarith?
  have c24: False if "510 \<le> T" "T < 765" "1020 \<le> T'" "T' < 1275"
    using that f t by (simp add: vR_def vG_def vB_def) linarith?
  have c25: False if "510 \<le> T" "T < 765" "1275 \<le> T'" "T' < 1530"
    using that f t by (simp add: vR_def vG_def vB_def) linarith?
  have c30: False if "765 \<le> T" "T < 1020" "0 \<le> T'" "T' < 255"
    using that t by linarith
  have c31: False if "765 \<le> T" "T < 1020" "255 \<le> T'" "T' < 510"
    using that t by linarith
  have c32: False if "765 \<le> T" "T < 1020" "510 \<le> T'" "T' < 765"
    using that t by linarith
  have c33: False if "765 \<le> T" "T < 1020" "765 \<le> T'" "T' < 1020"
    using that f t by (simp add: vR_def vG_def vB_def) linarith?
  have c34: False if "765 \<le> T" "T < 1020" "1020 \<le> T'" "T' < 1275"
    using that f t by (simp add: vR_def vG_def vB_def) linarith?
  have c35: False if "765 \<le> T" "T < 1020" "1275 \<le> T'" "T' < 1530"
    using that f t by (simp add: vR_def vG_def vB_def) linarith?
  have c40: False if "1020 \<le> T" "T < 1275" "0 \<le> T'" "T' < 255"
    using that t by linarith
  have c41: False if "1020 \<le> T" "T < 1275" "255 \<le> T'" "T' < 510"
    using that t by linarith
  have c42: False if "1020 \<le> T" "T < 1275" "510 \<le> T'" "T' < 765"
    using that t by linarith
  have c43: False if "1020 \<le> T" "T < 1275" "765 \<le> T'" "T' < 1020"
    using that t by linarith
  have c44: False if "1020 \<le> T" "T < 1275" "1020 \<le> T'" "T' < 1275"
    using that f t by (simp add: vR_def vG_def vB_def) linarith?
  have c45: False if "1020 \<le> T" "T < 1275" "1275 \<le> T'" "T' < 1530"
    using that f t by (simp add: vR_def vG_def vB_def) linarith?
  have c50: False if "1275 \<le> T" "T < 1530" "0 \<le> T'" "T' < 255"
    using that t by linarith
  have c51: False if "1275 \<le> T" "T < 1530" "255 \<le> T'" "T' < 510"
    using that t by linarith
  have c52: False if "1275 \<le> T" "T < 1530" "510 \<le> T'" "T' < 765"
    using that t by linarith
  have c53: False if "1275 \<le> T" "T < 1530" "765 \<le> T'" "T' < 1020"
    using that t by linarith
  have c54: False if "1275 \<le> T" "T < 1530" "1020 \<le> T'" "T' < 1275"
    using that t by linarith
  have c55: False if "1275 \<le> T" "T < 1530" "1275 \<le> T'" "T' < 1530"
    using that f t by (simp add: vR_def vG_def vB_def) linarith?
  have sT: "(0 \<le> T \<and> T < 255) \<or> (255 \<le> T \<and> T < 510) \<or> (510 \<le> T \<and> T < 765) \<or> (765 \<le> T \<and> T < 1020) \<or> (1020 \<le> T \<and> T < 1275) \<or> (1275 \<le> T \<and> T < 1530)"
    using assms(1,3) t by linarith
  have sT': "(0 \<le> T' \<and> T' < 255) \<or> (255 \<le> T' \<and> T' < 510) \<or> (510 \<le> T' \<and> T' < 765) \<or> (765 \<le> T' \<and> T' < 1020) \<or> (1020 \<le> T' \<and> T' < 1275) \<or> (1275 \<le> T' \<and> T' < 1530)"
    using assms(1,3) t by linarith
  have r0: False if "0 \<le> T" "T < 255"
    using sT' c00[OF that] c01[OF that] c02[OF that] c03[OF that] c04[OF that] c05[OF that] by blast
  have r1: False if "255 \<le> T" "T < 510"
    using sT' c10[OF that] c11[OF that] c12[OF that] c13[OF that] c14[OF that] c15[OF that] by blast
  have r2: False if "510 \<le> T" "T < 765"
    using sT' c20[OF that] c21[OF that] c22[OF that] c23[OF that] c24[OF that] c25[OF that] by blast
  have r3: False if "765 \<le> T" "T < 1020"
    using sT' c30[OF that] c31[OF that] c32[OF that] c33[OF that] c34[OF that] c35[OF that] by blast
  have r4: False if "1020 \<le> T" "T < 1275"
    using sT' c40[OF that] c41[OF that] c42[OF that] c43[OF that] c44[OF that] c45[OF that] by blast
  have r5: False if "1275 \<le> T" "T < 1530"
    using sT' c50[OF that] c51[OF that] c52[OF that] c53[OF that] c54[OF that] c55[OF that] by blast
  show False
    using sT r0 r1 r2 r3 r4 r5 by blast
qed

lemma v_Ints: "vR (of_int i) \<in> \<int>" "vG (of_int i) \<in> \<int>" "vB (of_int i) \<in> \<int>"
  by (simp_all add: vR_def vG_def vB_def)

lemma v_range:
  assumes "0 \<le> T" "T < 1530"
  shows "0 \<le> vR T" "vR T \<le> 255" "0 \<le> vG T" "vG T \<le> 255" "0 \<le> vB T" "vB T \<le> 255"
  using assms by (auto simp: vR_def vG_def vB_def)

lemma colors_loop_map:
  "colors_loop i n colors_list = colors_list @ map (hue_color n) [i..n - 1]"
proof (induction i n colors_list rule: colors_loop.induct)
  case (1 i n colors_list)
  show ?case
  proof (cases "i < n")
    case False
    then show ?thesis by (subst colors_loop.simps) simp
  next
    case True
    then have u: "[i..n - 1] = i # [i + 1..n - 1]" by (simp add: upto_rec1)
    have "colors_loop i n colors_list = colors_loop (i + 1) n (colors_list @ [hue_color n i])"
      using True by (subst colors_loop.simps) (simp add: hue_color_def)
    also have "\<dots> = (colors_list @ [hue_color n i]) @ map (hue_color n) [i + 1..n - 1]"
      using "1.IH"[OF True] by (simp add: hue_color_def)
    finally show ?thesis using u by simp
  qed
qed

lemma digits16_byte:
  assumes "n < 256"
  shows "replicate (2 - length (digits16 n)) CHR ''0'' @ digits16 n
         = [hex_digit (n div 16), hex_digit (n mod 16)]"
proof (cases "n < 16")
  case True
  then have "digits16 n = [hex_digit n]" by (subst digits16.simps) simp
  moreover have "hex_digit 0 = CHR ''0''" by (simp add: hex_digit_def)
  ultimately show ?thesis using True by (simp add: numeral_2_eq_2)
next
  case False
  then have "n div 16 < 16" using assms by simp
  then have "digits16 (n div 16) = [hex_digit (n div 16)]" by (subst digits16.simps) simp
  then have "digits16 n = [hex_digit (n div 16), hex_digit (n mod 16)]"
    using False by (subst digits16.simps) simp
  then show ?thesis by simp
qed

lemma hex_digit_inj:
  assumes "a < 16" "b < 16" "hex_digit a = hex_digit b"
  shows "a = b"
proof -
  have d: "distinct ''0123456789abcdef''" by simp
  have l: "length ''0123456789abcdef'' = 16" by simp
  show ?thesis
    using nth_eq_iff_index_eq[OF d, of a b] assms unfolding hex_digit_def l by blast
qed

lemma hex2_inj:
  assumes "0 \<le> c" "c \<le> 255" "0 \<le> d" "d \<le> 255"
    and "padStart2 (toString16 c) = padStart2 (toString16 d)"
  shows "c = d"
proof -
  have c: "padStart2 (toString16 c) = [hex_digit (nat c div 16), hex_digit (nat c mod 16)]"
    using assms(1,2) digits16_byte[of "nat c"] by (simp add: padStart2_def toString16_def)
  have d: "padStart2 (toString16 d) = [hex_digit (nat d div 16), hex_digit (nat d mod 16)]"
    using assms(3,4) digits16_byte[of "nat d"] by (simp add: padStart2_def toString16_def)
  have lt: "nat c div 16 < 16" "nat d div 16 < 16" using assms(1-4) by simp_all
  have "hex_digit (nat c div 16) = hex_digit (nat d div 16)"
    and "hex_digit (nat c mod 16) = hex_digit (nat d mod 16)"
    using assms(5) c d by simp_all
  then have "nat c div 16 = nat d div 16" "nat c mod 16 = nat d mod 16"
    using hex_digit_inj lt by simp_all
  then have "nat c = nat d" by (metis div_mult_mod_eq)
  then show ?thesis using assms(1,3) by simp
qed

lemma hex2_length:
  assumes "0 \<le> c" "c \<le> 255"
  shows "length (padStart2 (toString16 c)) = 2"
  using assms digits16_byte[of "nat c"] by (simp add: padStart2_def toString16_def)

lemma hue_color_channels:
  "hue_color n i =
     ''#'' @ padStart2 (toString16 (channel 0 (hue n i))) @ padStart2 (toString16 (channel 8 (hue n i)))
           @ padStart2 (toString16 (channel 4 (hue n i)))"
  by (simp only: hue_color_def hue_def hslToHex_channels)

lemma channels_near:
  assumes "1 \<le> n" "n \<le> 1531" "0 \<le> i" "i < n"
  shows "\<exists>w. channel 0 (hue n i) = \<lfloor>w + 1 / 2\<rfloor> \<and> \<bar>w - vR (1530 * real_of_int i / real_of_int n)\<bar> \<le> err"
    and "\<exists>w. channel 8 (hue n i) = \<lfloor>w + 1 / 2\<rfloor> \<and> \<bar>w - vG (1530 * real_of_int i / real_of_int n)\<bar> \<le> err"
    and "\<exists>w. channel 4 (hue n i) = \<lfloor>w + 1 / 2\<rfloor> \<and> \<bar>w - vB (1530 * real_of_int i / real_of_int n)\<bar> \<le> err"
  unfolding hue_def err_def by (rule channels_close[OF assms])+

lemma position_range:
  assumes "1 \<le> n" "0 \<le> i" "i < n"
  shows "0 \<le> 1530 * real_of_int i / real_of_int n" "1530 * real_of_int i / real_of_int n < 1530"
proof -
  have n: "0 < real_of_int n" using assms(1) by simp
  show "0 \<le> 1530 * real_of_int i / real_of_int n" using assms(2) n by simp
  have "real_of_int i < real_of_int n" using assms(3) by simp
  then show "1530 * real_of_int i / real_of_int n < 1530" using n by (simp add: field_simps)
qed

lemma channels_range:
  assumes "1 \<le> n" "n \<le> 1531" "0 \<le> i" "i < n"
  shows "0 \<le> channel 0 (hue n i)" "channel 0 (hue n i) \<le> 255"
    and "0 \<le> channel 8 (hue n i)" "channel 8 (hue n i) \<le> 255"
    and "0 \<le> channel 4 (hue n i)" "channel 4 (hue n i) \<le> 255"
proof -
  note T = position_range[OF assms(1,3,4)]
  note v = v_range[OF T]
  note c = channels_near[OF assms]
  have a: "of_int 0 \<le> v + 1 / 2 - err" "v + 1 / 2 + err < of_int 255 + 1"
    if "0 \<le> v" "v \<le> 255" for v :: real
    using that err_bounds by simp_all
  show "0 \<le> channel 0 (hue n i)" "channel 0 (hue n i) \<le> 255"
    using near_floor[OF c(1) a[OF v(1,2)]] by simp_all
  show "0 \<le> channel 8 (hue n i)" "channel 8 (hue n i) \<le> 255"
    using near_floor[OF c(2) a[OF v(3,4)]] by simp_all
  show "0 \<le> channel 4 (hue n i)" "channel 4 (hue n i) \<le> 255"
    using near_floor[OF c(3) a[OF v(5,6)]] by simp_all
qed

lemma hue_color_eq_channels:
  assumes "1 \<le> n" "n \<le> 1531" "0 \<le> i" "i < n" "0 \<le> j" "j < n"
  shows "hue_color n i = hue_color n j \<longleftrightarrow>
         channel 0 (hue n i) = channel 0 (hue n j) \<and> channel 8 (hue n i) = channel 8 (hue n j) \<and>
         channel 4 (hue n i) = channel 4 (hue n j)"
proof
  assume eq: "hue_color n i = hue_color n j"
  note r = channels_range[OF assms(1-4)] and r' = channels_range[OF assms(1,2,5,6)]
  let ?h = "\<lambda>m i. padStart2 (toString16 (channel m (hue n i)))"
  have len: "length (?h 0 i) = 2" "length (?h 8 i) = 2" "length (?h 0 j) = 2" "length (?h 8 j) = 2"
    using r r' hex2_length by simp_all
  have "?h 0 i @ ?h 8 i @ ?h 4 i = ?h 0 j @ ?h 8 j @ ?h 4 j"
    using eq unfolding hue_color_channels by simp
  then have e: "?h 0 i = ?h 0 j" "?h 8 i = ?h 8 j" "?h 4 i = ?h 4 j"
    using len by simp_all
  show "channel 0 (hue n i) = channel 0 (hue n j) \<and> channel 8 (hue n i) = channel 8 (hue n j) \<and>
         channel 4 (hue n i) = channel 4 (hue n j)"
    using hex2_inj[OF r(1,2) r'(1,2) e(1)] hex2_inj[OF r(3,4) r'(3,4) e(2)]
      hex2_inj[OF r(5,6) r'(5,6) e(3)] by simp
next
  assume "channel 0 (hue n i) = channel 0 (hue n j) \<and> channel 8 (hue n i) = channel 8 (hue n j) \<and>
         channel 4 (hue n i) = channel 4 (hue n j)"
  then show "hue_color n i = hue_color n j" unfolding hue_color_channels by simp
qed

lemma hue_color_differ:
  assumes "1 \<le> n" "n \<le> 1530" "0 \<le> i" "i < j" "j < n"
  shows "hue_color n i \<noteq> hue_color n j"
proof
  assume eq: "hue_color n i = hue_color n j"
  define T where "T = 1530 * real_of_int i / real_of_int n"
  define T' where "T' = 1530 * real_of_int j / real_of_int n"
  have n1: "n \<le> 1531" and i1: "i < n" and j0: "0 \<le> j" using assms by simp_all
  have n: "0 < real_of_int n" using assms(1) by simp
  note ci = channels_near[OF assms(1) n1 assms(3) i1, folded T_def]
  note cj = channels_near[OF assms(1) n1 j0 assms(5), folded T'_def]
  have ch: "channel 0 (hue n i) = channel 0 (hue n j)" "channel 8 (hue n i) = channel 8 (hue n j)"
    "channel 4 (hue n i) = channel 4 (hue n j)"
    using eq hue_color_eq_channels[OF assms(1) n1 assms(3) i1 j0 assms(5)] by simp_all
  have T0: "0 \<le> T" unfolding T_def by (rule position_range[OF assms(1,3) i1])
  have T1: "T' < 1530" unfolding T'_def by (rule position_range[OF assms(1) j0 assms(5)])
  have d: "T' - T = 1530 * real_of_int (j - i) / real_of_int n"
    by (simp add: T_def T'_def diff_divide_distrib right_diff_distrib)
  have e4: "err \<le> 1 / 4" using err_bounds by simp
  show False
  proof (cases "n = 1530")
    case True
    have T: "T = of_int i" "T' = of_int j" using True by (simp_all add: T_def T'_def)
    have lt: "T < T'" unfolding T using assms(4) by simp
    have "vR T = vR T'"
      using round_near[OF _ ci(1) e4] round_near[OF _ cj(1) e4] v_Ints(1) ch(1) unfolding T
      by simp
    moreover have "vG T = vG T'"
      using round_near[OF _ ci(2) e4] round_near[OF _ cj(2) e4] v_Ints(2) ch(2) unfolding T
      by simp
    moreover have "vB T = vB T'"
      using round_near[OF _ ci(3) e4] round_near[OF _ cj(3) e4] v_Ints(3) ch(3) unfolding T
      by simp
    ultimately show False using v_injective[OF T0 lt T1] by simp
  next
    case False
    then have n2: "real_of_int n \<le> 1529" using assms(2) by simp
    define P where "P = real_of_int n * (1 + 3 * err)"
    define k where "k = real_of_int (j - i)"
    have "P \<le> 1529 * (1 + 3 * err)"
      unfolding P_def using n2 err_bounds(1) by (intro mult_right_mono) simp_all
    also have "\<dots> \<le> 1530" using err_bounds(2) by simp
    finally have m: "P \<le> 1530" .
    have k1: "1 \<le> k" unfolding k_def using assms(4) by simp
    have "P \<le> 1530 * k" using m k1 by linarith
    then have "(1 + 3 * err) * real_of_int n \<le> 1530 * k" by (simp add: P_def mult.commute)
    then have "1 + 3 * err \<le> 1530 * k / real_of_int n"
      using n by (simp only: pos_le_divide_eq)
    then have T2: "T + 1 + 3 * err \<le> T'" using d by (simp add: k_def)
    have "k \<le> real_of_int n - 1" unfolding k_def using assms(3,5) by simp
    then have "1530 * k \<le> 1530 * real_of_int n - P" using m by linarith
    also have "\<dots> = (1529 - 3 * err) * real_of_int n" by (simp add: P_def algebra_simps)
    finally have "1530 * k / real_of_int n \<le> 1529 - 3 * err"
      using n by (simp only: pos_divide_le_eq)
    then have T3: "T' + 3 * err \<le> T + 1529" using d by (simp add: k_def)
    show False
      using distinct_channels[OF T0 T2 T3 T1 err_bounds(1) e4 ci(1) cj(1)[folded ch(1)]
          ci(2) cj(2)[folded ch(2)] ci(3) cj(3)[folded ch(3)]] .
  qed
qed

lemma colors_distinct:
  assumes "1 \<le> n" "n \<le> 1530"
  shows "distinct (map (hue_color n) [0..n - 1])"
proof -
  have "inj_on (hue_color n) (set [0..n - 1])"
  proof (rule inj_onI)
    fix i j assume i: "i \<in> set [0..n - 1]" and j: "j \<in> set [0..n - 1]"
      and e: "hue_color n i = hue_color n j"
    show "i = j"
    proof (rule ccontr)
      assume "i \<noteq> j"
      then consider "i < j" | "j < i" by linarith
      then show False
      proof cases
        case 1
        then show False using hue_color_differ[OF assms, of i j] i j e by simp
      next
        case 2
        then show False using hue_color_differ[OF assms, of j i] i j e by simp
      qed
    qed
  qed
  then show ?thesis by (simp add: distinct_map)
qed

lemma initializeColors_shuffle:
  "initializeColors n s = shuffle (map (hue_color n) [0..n - 1]) s"
  by (simp add: initializeColors_def colors_loop_map)

lemma hue_color_1531: "hue_color 1531 765 = hue_color 1531 766"
proof -
  note ci = channels_near[of 1531 765] and cj = channels_near[of 1531 766]
  have T: "1530 * real_of_int 765 / real_of_int 1531 = 1170450 / 1531"
    and T': "1530 * real_of_int 766 / real_of_int 1531 = 1171980 / 1531" by simp_all
  have v: "vR (1170450 / 1531) = 0" "vG (1170450 / 1531) = 255" "vB (1170450 / 1531) = 389640 / 1531"
    "vR (1171980 / 1531) = 0" "vG (1171980 / 1531) = 389640 / 1531" "vB (1171980 / 1531) = 255"
    by (simp_all add: vR_def vG_def vB_def)
  have a: "of_int 0 \<le> (0::real) + 1 / 2 - err" "(0::real) + 1 / 2 + err < of_int 0 + 1"
    "of_int 255 \<le> (255::real) + 1 / 2 - err" "(255::real) + 1 / 2 + err < of_int 255 + 1"
    "of_int 255 \<le> (389640 / 1531 :: real) + 1 / 2 - err"
    "(389640 / 1531 :: real) + 1 / 2 + err < of_int 255 + 1"
    using err_bounds by simp_all
  have "channel 0 (hue 1531 765) = 0" "channel 8 (hue 1531 765) = 255" "channel 4 (hue 1531 765) = 255"
    "channel 0 (hue 1531 766) = 0" "channel 8 (hue 1531 766) = 255" "channel 4 (hue 1531 766) = 255"
    using near_floor[OF ci(1)[unfolded T v] a(1,2)] near_floor[OF ci(2)[unfolded T v] a(3,4)]
      near_floor[OF ci(3)[unfolded T v] a(5,6)] near_floor[OF cj(1)[unfolded T' v] a(1,2)]
      near_floor[OF cj(2)[unfolded T' v] a(5,6)] near_floor[OF cj(3)[unfolded T' v] a(3,4)]
    by simp_all
  then show ?thesis unfolding hue_color_channels by simp
qed

text \<open>
  Claim C9 promises \<open>n\<close> pairwise distinct colours for every \<open>n \<ge> 1\<close>. A colour at
  saturation 100 and lightness 50 has one channel at 255, one at 0 and one rounded to an
  integer, so there are only 1530 of them: with 1531 hues, the hues number 765 and 766
  both become \<open>#00ffff\<close>. Their third channel is \<open>389640 / 1531 = 254.5003...\<close> before
  \<open>Math.round\<close>, up to the rounding of the doubles, which is far smaller than the distance
  to the tie at 254.5.
\<close>

theorem initializeColors_1531_not_distinct:
  "\<not> distinct (fst (initializeColors 1531 (\<lambda>_. 0)))"
proof
  assume d: "distinct (fst (initializeColors 1531 (\<lambda>_. 0)))"
  have u: "uniform (\<lambda>_. 0)" by (simp add: uniform_def)
  have "mset (fst (initializeColors 1531 (\<lambda>_. 0))) = mset (map (hue_color 1531) [0..1531 - 1])"
    unfolding initializeColors_shuffle by (rule shuffle_mset[OF u])
  then have "distinct (map (hue_color 1531) [0..1531 - 1])"
    using d by (metis mset_eq_imp_distinct_iff)
  then have i: "inj_on (hue_color 1531) (set [0..1531 - 1])" by (simp only: distinct_map)
  have m: "765 \<in> set [0..1531 - 1]" "766 \<in> set [0..1531 - (1::int)]" by simp_all
  have "(765 :: int) = 766" by (rule inj_onD[OF i hue_color_1531 m])
  then show False by simp
qed

text \<open>
  Claim C9, as it holds. For every \<open>n \<ge> 1\<close> and every sequence of draws in \<open>[0, 1)\<close>,
  \<open>initializeColors\<close> returns exactly \<open>n\<close> colours: the hex colours of the \<open>n\<close> evenly
  spaced hues \<open>i * 360 / n % 360\<close> at saturation 100 and lightness 50, computed in doubles
  and returned in the order in which \<open>shuffle\<close> leaves them with these draws, which is a
  permutation of them. They are pairwise distinct whenever \<open>n \<le> 1530\<close>.
\<close>

theorem initializeColors_colors:
  assumes "uniform s" "1 \<le> n"
  shows "fst (initializeColors n s) = fst (shuffle (map (hue_color n) [0..n - 1]) s) \<and>
         length (fst (initializeColors n s)) = nat n \<and>
         mset (fst (initializeColors n s)) = mset (map (hue_color n) [0..n - 1]) \<and>
         (n \<le> 1530 \<longrightarrow> distinct (fst (initializeColors n s)))"
proof -
  have m: "mset (fst (initializeColors n s)) = mset (map (hue_color n) [0..n - 1])"
    unfolding initializeColors_shuffle by (rule shuffle_mset[OF assms(1)])
  have "length (fst (initializeColors n s)) = length (map (hue_color n) [0..n - 1])"
    using m by (rule mset_eq_length)
  then have l: "length (fst (initializeColors n s)) = nat n" using assms(2) by simp
  have "distinct (fst (initializeColors n s))" if "n \<le> 1530"
    using colors_distinct[OF assms(2) that] m by (metis mset_eq_imp_distinct_iff)
  then show ?thesis using l m initializeColors_shuffle[of n s] by simp
qed

theorem initializeColors_colors_witness:
  "fst (initializeColors 7 (\<lambda>_. 0)) = fst (shuffle (map (hue_color 7) [0..7 - 1]) (\<lambda>_. 0)) \<and>
   length (fst (initializeColors 7 (\<lambda>_. 0))) = nat 7 \<and>
   mset (fst (initializeColors 7 (\<lambda>_. 0))) = mset (map (hue_color 7) [0..7 - 1]) \<and>
   distinct (fst (initializeColors 7 (\<lambda>_. 0)))"
proof -
  have u: "uniform (\<lambda>_. 0)" by (simp add: uniform_def)
  have n: "(1::int) \<le> 7" "(7::int) \<le> 1530" by simp_all
  show ?thesis using initializeColors_colors[OF u n(1)] n(2) by blast
qed

section \<open>Properties of initNumberOfBalls\<close>

text \<open>
  Claim C6. The spec bounds the ball count by \<open>floor(columns * height / 2) + 1\<close>. The
  code passes \<open>columns * height / 2 + 1\<close> to \<open>randomIntFromInterval\<close> without rounding
  it down, so for an odd product the result can be one larger than that bound (and than
  the \<open>max\<close> that the comment of \<open>randomIntFromInterval\<close> calls included). With 3 columns
  of height 5 the interval \<open>6 .. 8\<close> is not empty, and the draw \<open>0.9\<close> gives 9 balls.
\<close>

theorem initNumberOfBalls_exceeds_maximum:
  "2 * 3 \<le> (3 * 5) div 2 + (1 :: int) \<and>
   fst (initNumberOfBalls 3 5 (\<lambda>_. 9 / 10)) = 9 \<and>
   (3 * 5) div 2 + 1 < fst (initNumberOfBalls 3 5 (\<lambda>_. 9 / 10))"
  by code_simp

section \<open>Properties of chooseBallsInColumn\<close>

lemma forPossibilities_sound:
  assumes att: "\<And>k s. k \<in> set ks \<Longrightarrow> uniform s \<Longrightarrow>
            uniform (snd (attempt k s)) \<and> (\<forall>t. fst (attempt k s) = Inr (Some t) \<longrightarrow> Q k t)"
    and s: "uniform s"
  shows "uniform (snd (forPossibilities attempt ks s)) \<and>
         (\<forall>p. fst (forPossibilities attempt ks s) = Inr (Some p) \<longrightarrow>
              (\<exists>k t. k \<in> set ks \<and> p = k # t \<and> Q k t))"
  using att s
proof (induction ks arbitrary: s)
  case Nil
  then show ?case by simp
next
  case (Cons k ks)
  obtain r s' where a: "attempt k s = (r, s')" by (cases "attempt k s")
  have k: "uniform s' \<and> (\<forall>t. r = Inr (Some t) \<longrightarrow> Q k t)"
    using Cons.prems(1)[of k s] Cons.prems(2) a by simp
  have rest: "uniform (snd (forPossibilities attempt ks s')) \<and>
         (\<forall>p. fst (forPossibilities attempt ks s') = Inr (Some p) \<longrightarrow>
              (\<exists>k t. k \<in> set ks \<and> p = k # t \<and> Q k t))"
    using Cons.IH[of s'] Cons.prems(1) k by simp
  show ?case
  proof (cases r)
    case (Inl e)
    then show ?thesis using a rest by auto
  next
    case (Inr v)
    then show ?thesis using a rest k by (cases v) auto
  qed
qed


lemma not_exceeds_iff:
  "1 \<le> columns \<Longrightarrow> quotient_exceeds balls columns height \<longleftrightarrow> columns * height < balls"
proof -
  assume c: "1 \<le> columns"
  then have pos: "0 < real_of_int columns" by simp
  have "real_of_int height < real_of_int balls / real_of_int columns
        \<longleftrightarrow> real_of_int height * real_of_int columns < real_of_int balls"
    using pos by (simp add: pos_less_divide_eq)
  also have "\<dots> \<longleftrightarrow> real_of_int (columns * height) < real_of_int balls"
    by (simp add: mult.commute)
  also have "\<dots> \<longleftrightarrow> columns * height < balls" by (simp only: of_int_less_iff)
  finally show ?thesis using c by (simp add: quotient_exceeds_def)
qed

lemma set_candidates:
  "uniform s \<Longrightarrow> set (fst (shuffle (map int [0..<nat n]) s)) = {k. 0 \<le> k \<and> k < n}"
proof -
  assume "uniform s"
  then have "set (fst (shuffle (map int [0..<nat n]) s)) = set (map int [0..<nat n])"
    using shuffle_mset by (metis mset_eq_setD)
  also have "\<dots> = {k. 0 \<le> k \<and> k < n}"
  proof (rule set_eqI)
    fix k
    show "k \<in> set (map int [0..<nat n]) \<longleftrightarrow> k \<in> {k. 0 \<le> k \<and> k < n}"
    proof
      assume "k \<in> set (map int [0..<nat n])"
      then obtain m where "m < nat n" "k = int m" by auto
      then show "k \<in> {k. 0 \<le> k \<and> k < n}" by auto
    next
      assume "k \<in> {k. 0 \<le> k \<and> k < n}"
      then have "nat k < nat n" "k = int (nat k)" by auto
      then show "k \<in> set (map int [0..<nat n])" by (auto intro!: image_eqI[of _ _ "nat k"])
    qed
  qed
  finally show ?thesis .
qed

lemma chooseBallsInColumn_sound:
  "1 \<le> columns \<Longrightarrow> 0 \<le> balls \<Longrightarrow> uniform s \<Longrightarrow>
   uniform (snd (chooseBallsInColumn stack columns balls height s)) \<and>
   (\<forall>p. fst (chooseBallsInColumn stack columns balls height s) = Inr (Some p) \<longrightarrow>
        length p = nat columns \<and> (\<forall>x\<in>set p. 0 \<le> x \<and> x \<le> height) \<and> sum_list p = balls)"
proof (induction stack arbitrary: columns balls s)
  case 0
  then show ?case by simp
next
  case (Suc stack)
  show ?case
  proof (cases "quotient_exceeds balls columns height")
    case True
    then show ?thesis using Suc.prems(3) by simp
  next
    case ne: False
    then have fit: "balls \<le> columns * height"
      using not_exceeds_iff[of columns balls height] Suc.prems(1) by simp
    show ?thesis
    proof (cases "columns = 1")
      case True
      then show ?thesis using ne fit Suc.prems(2,3) by simp
    next
      case c1: False
      show ?thesis
      proof (cases "min height balls + 1 < 0")
        case True
        then show ?thesis using ne c1 Suc.prems(3) by simp
      next
        case nn: False
        obtain ks s' where sh: "shuffle (map int [0..<nat (min height balls + 1)]) s = (ks, s')"
          by (cases "shuffle (map int [0..<nat (min height balls + 1)]) s")
        have u': "uniform s'" using shuffle_uniform[OF Suc.prems(3)] sh by (metis snd_conv)
        have ks: "set ks = {k. 0 \<le> k \<and> k < min height balls + 1}"
          using set_candidates[OF Suc.prems(3), of "min height balls + 1"] sh by simp
        let ?att = "\<lambda>firstColumnBalls.
          chooseBallsInColumn stack (columns - 1) (balls - firstColumnBalls) height"
        let ?Q = "\<lambda>k t. 0 \<le> k \<and> k \<le> height \<and> length t = nat (columns - 1) \<and>
          (\<forall>x\<in>set t. 0 \<le> x \<and> x \<le> height) \<and> sum_list t = balls - k"
        have att: "uniform (snd (?att k s)) \<and> (\<forall>t. fst (?att k s) = Inr (Some t) \<longrightarrow> ?Q k t)"
          if "k \<in> set ks" "uniform s" for k s
        proof -
          have k: "0 \<le> k" "k \<le> height" "k \<le> balls" using that(1) ks by auto
          have "1 \<le> columns - 1" using c1 Suc.prems(1) by simp
          moreover have "0 \<le> balls - k" using k by simp
          ultimately show ?thesis
            using Suc.IH[of "columns - 1" "balls - k" s] that(2) k by simp
        qed
        have res: "chooseBallsInColumn (Suc stack) columns balls height s
                   = forPossibilities ?att ks s'"
          by (simp only: chooseBallsInColumn.simps ne c1 nn if_False sh prod.case)
        have A: "uniform (snd (forPossibilities ?att ks s')) \<and>
         (\<forall>p. fst (forPossibilities ?att ks s') = Inr (Some p) \<longrightarrow>
              (\<exists>k t. k \<in> set ks \<and> p = k # t \<and> ?Q k t))"
          by (rule forPossibilities_sound[of ks ?att ?Q s', OF att u'])
        show ?thesis unfolding res
        proof (intro conjI allI impI)
          show "uniform (snd (forPossibilities ?att ks s'))" using A by simp
        next
          fix p assume "fst (forPossibilities ?att ks s') = Inr (Some p)"
          then obtain k t where p: "p = k # t" and q: "?Q k t" using A by blast
          show "length p = nat columns" using p q Suc.prems(1) by simp
          show "\<forall>x\<in>set p. 0 \<le> x \<and> x \<le> height" using p q by simp
          show "sum_list p = balls" using p q by simp
        qed
      qed
    qed
  qed
qed







section \<open>Properties of haveWon\<close>

lemma slot_at_in_range:
  "0 \<le> c \<Longrightarrow> nat c < length board \<Longrightarrow> \<exists>w. slot_at board c r = Inr w"
  by (auto simp: slot_at_def array_get_def split: option.splits)

lemma haveWon_row_eq:
  assumes "0 \<le> i" "nat i < length (state g)" "nat i < length (referenceState g)"
  shows "haveWon_row g i j =
         Inr (\<forall>j'. j \<le> j' \<and> j' < HEIGHT g \<longrightarrow>
                slot_at (state g) i j' = slot_at (referenceState g) i j')"
  using assms
proof (induction g i j rule: haveWon_row.induct)
  case (1 g i j)
  show ?case
  proof (cases "j < HEIGHT g")
    case False
    then show ?thesis by (subst haveWon_row.simps) auto
  next
    case True
    obtain v where v: "slot_at (state g) i j = Inr v"
      using slot_at_in_range[OF "1.prems"(1,2)] by blast
    obtain w where w: "slot_at (referenceState g) i j = Inr w"
      using slot_at_in_range[OF "1.prems"(1,3)] by blast
    show ?thesis
    proof (cases "v = w")
      case False
      then have "haveWon_row g i j = Inr False"
        using True v w by (subst haveWon_row.simps) simp
      moreover have "\<not> (\<forall>j'. j \<le> j' \<and> j' < HEIGHT g \<longrightarrow>
                slot_at (state g) i j' = slot_at (referenceState g) i j')"
        using True v w False by auto
      ultimately show ?thesis by simp
    next
      case same: True
      then have "haveWon_row g i j = haveWon_row g i (j + 1)"
        using True v w by (subst haveWon_row.simps) simp
      also have "\<dots> = Inr (\<forall>j'. j + 1 \<le> j' \<and> j' < HEIGHT g \<longrightarrow>
                slot_at (state g) i j' = slot_at (referenceState g) i j')"
        using "1.IH"[OF True v w] same "1.prems" by simp
      also have "(\<forall>j'. j + 1 \<le> j' \<and> j' < HEIGHT g \<longrightarrow>
                slot_at (state g) i j' = slot_at (referenceState g) i j')
           = (\<forall>j'. j \<le> j' \<and> j' < HEIGHT g \<longrightarrow>
                slot_at (state g) i j' = slot_at (referenceState g) i j')"
      proof -
        have "j \<le> j' \<longleftrightarrow> j' = j \<or> j + 1 \<le> j'" for j' by auto
        then show ?thesis using v w same by auto
      qed
      finally show ?thesis .
    qed
  qed
qed

lemma haveWon_from_eq:
  assumes "0 \<le> i" "nat (COLUMNS g) \<le> length (state g)"
    "nat (COLUMNS g) \<le> length (referenceState g)"
  shows "haveWon_from g i =
         Inr (\<forall>i' j'. i \<le> i' \<and> i' < COLUMNS g \<and> 0 \<le> j' \<and> j' < HEIGHT g \<longrightarrow>
                slot_at (state g) i' j' = slot_at (referenceState g) i' j')"
  using assms
proof (induction g i rule: haveWon_from.induct)
  case (1 g i)
  show ?case
  proof (cases "i < COLUMNS g")
    case False
    then show ?thesis by (subst haveWon_from.simps) auto
  next
    case True
    define R where "R = (\<forall>j'. 0 \<le> j' \<and> j' < HEIGHT g \<longrightarrow>
                slot_at (state g) i j' = slot_at (referenceState g) i j')"
    have r: "haveWon_row g i 0 = Inr R"
      unfolding R_def using haveWon_row_eq[of i g 0] True "1.prems" by simp
    show ?thesis
    proof (cases R)
      case False
      then have "haveWon_from g i = Inr False"
        using True r by (subst haveWon_from.simps) simp
      moreover have "\<not> (\<forall>i' j'. i \<le> i' \<and> i' < COLUMNS g \<and> 0 \<le> j' \<and> j' < HEIGHT g \<longrightarrow>
                slot_at (state g) i' j' = slot_at (referenceState g) i' j')"
        using True False unfolding R_def by auto
      ultimately show ?thesis by simp
    next
      case row: True
      then have "haveWon_from g i = haveWon_from g (i + 1)"
        using True r by (subst haveWon_from.simps) simp
      also have "\<dots> = Inr (\<forall>i' j'. i + 1 \<le> i' \<and> i' < COLUMNS g \<and> 0 \<le> j' \<and> j' < HEIGHT g \<longrightarrow>
                slot_at (state g) i' j' = slot_at (referenceState g) i' j')"
        using "1.IH"[OF True r] row "1.prems" by simp
      also have "(\<forall>i' j'. i + 1 \<le> i' \<and> i' < COLUMNS g \<and> 0 \<le> j' \<and> j' < HEIGHT g \<longrightarrow>
                slot_at (state g) i' j' = slot_at (referenceState g) i' j')
           = (\<forall>i' j'. i \<le> i' \<and> i' < COLUMNS g \<and> 0 \<le> j' \<and> j' < HEIGHT g \<longrightarrow>
                slot_at (state g) i' j' = slot_at (referenceState g) i' j')"
      proof -
        have "i \<le> i' \<longleftrightarrow> i' = i \<or> i + 1 \<le> i'" for i' by auto
        then show ?thesis using row unfolding R_def by auto
      qed
      finally show ?thesis .
    qed
  qed
qed

lemma renderGame_returns:
  assumes "nat (COLUMNS g) \<le> length (state g)"
    and "nat (COLUMNS g) \<le> length (referenceState g)"
  shows "renderGame g = Inr ()"
  using haveWon_from_eq[of 0 g] assms by (simp add: renderGame_def haveWon_def)

lemma handleClick_render:
  assumes "(if selectedPiece g = None then handleFirstClick g c else handleSecondClick g c)
           = Inr g'"
    and "renderGame g' = Inr ()"
  shows "handleClick g c = Inr g'"
  using assms by (simp add: handleClick_def)

text \<open>
  Claim C7. When both boards have at least \<open>COLUMNS\<close> columns, \<open>haveWon\<close> returns \<open>true\<close>
  if and only if, for every column index below \<open>COLUMNS\<close> and every row index below
  \<open>HEIGHT\<close>, the slot of the playable board equals the slot of the reference board. The
  function reads the game and returns a boolean only: it has no assignment, so the model
  has no successor state and neither board nor the selection can change.
\<close>

theorem haveWon_iff:
  assumes "nat (COLUMNS g) \<le> length (state g)"
    and "nat (COLUMNS g) \<le> length (referenceState g)"
  shows "haveWon g =
         Inr (\<forall>i j. 0 \<le> i \<and> i < COLUMNS g \<and> 0 \<le> j \<and> j < HEIGHT g \<longrightarrow>
                slot_at (state g) i j = slot_at (referenceState g) i j)"
  unfolding haveWon_def using haveWon_from_eq[of 0 g] assms by simp

theorem haveWon_iff_witness:
  "haveWon \<lparr>COLUMNS = 1, HEIGHT = 2, state = [[Color (1::nat), Null]],
            referenceState = [[Color 1, Null]], selectedPiece = None\<rparr> = Inr True
   \<and> haveWon \<lparr>COLUMNS = 1, HEIGHT = 2, state = [[Color (1::nat), Null]],
            referenceState = [[Color 2, Null]], selectedPiece = None\<rparr> = Inr False"
proof
  show "haveWon \<lparr>COLUMNS = 1, HEIGHT = 2, state = [[Color (1::nat), Null]],
            referenceState = [[Color 1, Null]], selectedPiece = None\<rparr> = Inr True"
    using haveWon_iff[of "\<lparr>COLUMNS = 1, HEIGHT = 2, state = [[Color (1::nat), Null]],
            referenceState = [[Color 1, Null]], selectedPiece = None\<rparr>"]
    by simp
  have "slot_at [[Color (1::nat), Null]] 0 0 \<noteq> slot_at [[Color 2, Null]] 0 0"
    by (simp add: slot_at_def array_get_def)
  then have "\<not> (\<forall>i j. 0 \<le> i \<and> i < 1 \<and> 0 \<le> j \<and> j < 2 \<longrightarrow>
      slot_at [[Color (1::nat), Null]] i j = slot_at [[Color 2, Null]] i j)"
    by (metis less_numeral_extra(1) order_refl zero_less_numeral)
  then show "haveWon \<lparr>COLUMNS = 1, HEIGHT = 2, state = [[Color (1::nat), Null]],
            referenceState = [[Color 2, Null]], selectedPiece = None\<rparr> = Inr False"
    using haveWon_iff[of "\<lparr>COLUMNS = 1, HEIGHT = 2, state = [[Color (1::nat), Null]],
            referenceState = [[Color 2, Null]], selectedPiece = None\<rparr>"]
    by simp
qed

section \<open>Clicking a full column\<close>

lemma findEmptyRow_from_full:
  assumes "array_get (state g) columnIndex = Some column" "\<forall>v\<in>set column. v \<noteq> Null"
  shows "findEmptyRow_from g columnIndex i = Inr (- 1)"
  using assms
proof (induction g columnIndex i rule: findEmptyRow_from.induct)
  case (1 g columnIndex i)
  show ?case
  proof (cases "i \<le> HEIGHT g")
    case False
    then show ?thesis by (subst findEmptyRow_from.simps) simp
  next
    case True
    define v where "v = (case array_get column i of None \<Rightarrow> Undefined | Some v \<Rightarrow> v)"
    have sa: "slot_at (state g) columnIndex i = Inr v"
      using "1.prems"(1) by (simp add: slot_at_def v_def)
    have nn: "v \<noteq> Null"
      using "1.prems"(2) by (auto simp: v_def array_get_def split: option.splits)
    have "findEmptyRow_from g columnIndex i = findEmptyRow_from g columnIndex (i + 1)"
      using True sa nn by (subst findEmptyRow_from.simps) simp
    then show ?thesis using "1.IH"[OF True sa nn "1.prems"] by simp
  qed
qed

text \<open>
  Claim C5. A piece is selected and the click goes to a different column, inside the
  board, all \<open>HEIGHT\<close> of whose slots hold a colour. Then \<open>findEmptyRow\<close> returns \<open>-1\<close>
  (the read at index \<open>HEIGHT\<close> gives \<open>undefined\<close>, which is not \<open>null\<close>), and
  \<open>handleClick\<close> returns normally with the selection cleared and everything else,
  in particular every slot of the board, unchanged. The reference board has a column for
  every column index, as every board built by \<open>initializeState\<close> has, so that the
  \<open>haveWon\<close> call of \<open>renderGame\<close> does not throw.
\<close>

theorem full_column_rejected:
  assumes "selectedPiece g = Some (column, row)"
    and "columnIndex \<noteq> column"
    and "0 \<le> columnIndex" "columnIndex < COLUMNS g" "length (state g) = nat (COLUMNS g)"
    and "length (state g ! nat columnIndex) = nat (HEIGHT g)"
    and "\<forall>v\<in>set (state g ! nat columnIndex). \<exists>c. v = Color c"
    and "nat (COLUMNS g) \<le> length (referenceState g)"
  shows "findEmptyRow g columnIndex = Inr (- 1) \<and>
         handleClick g columnIndex = Inr (g\<lparr>selectedPiece := None\<rparr>)"
proof -
  have a: "array_get (state g) columnIndex = Some (state g ! nat columnIndex)"
    using assms(3,4,5) by (simp add: array_get_def)
  have b: "\<forall>v\<in>set (state g ! nat columnIndex). v \<noteq> Null" using assms(7) by auto
  have f: "findEmptyRow g columnIndex = Inr (- 1)"
    unfolding findEmptyRow_def by (rule findEmptyRow_from_full[OF a b])
  have s: "handleSecondClick g columnIndex = Inr (g\<lparr>selectedPiece := None\<rparr>)"
    using f assms(1,2) by (simp add: handleSecondClick_def)
  have r: "renderGame (g\<lparr>selectedPiece := None\<rparr>) = Inr ()"
    using assms(5,8) by (intro renderGame_returns) simp_all
  have "handleClick g columnIndex = Inr (g\<lparr>selectedPiece := None\<rparr>)"
    using s r assms(1) by (intro handleClick_render) simp_all
  then show ?thesis using f by simp
qed

theorem full_column_rejected_witness:
  "findEmptyRow \<lparr>COLUMNS = 2, HEIGHT = 2, state = [[Color (1::nat), Null], [Color 2, Color 3]],
            referenceState = [[Color 3, Color 1], [Color 2, Null]],
            selectedPiece = Some (0, 0)\<rparr> 1 = Inr (- 1) \<and>
   handleClick \<lparr>COLUMNS = 2, HEIGHT = 2, state = [[Color (1::nat), Null], [Color 2, Color 3]],
            referenceState = [[Color 3, Color 1], [Color 2, Null]],
            selectedPiece = Some (0, 0)\<rparr> 1 =
   Inr \<lparr>COLUMNS = 2, HEIGHT = 2, state = [[Color (1::nat), Null], [Color 2, Color 3]],
            referenceState = [[Color 3, Color 1], [Color 2, Null]], selectedPiece = None\<rparr>"
  using full_column_rejected[of "\<lparr>COLUMNS = 2, HEIGHT = 2,
     state = [[Color (1::nat), Null], [Color 2, Color 3]],
     referenceState = [[Color 3, Color 1], [Color 2, Null]],
     selectedPiece = Some (0, 0)\<rparr>" 0 0 1]
  by simp

section \<open>Properties of initializeState\<close>

lemma fill_column_nulls:
  "columnLength \<le> j \<Longrightarrow> j \<le> height \<Longrightarrow>
   fill_column se height columnLength j ci column = (column @ replicate (nat (height - j)) Null, ci)"
proof (induction se height columnLength j ci column rule: fill_column.induct)
  case (1 se height columnLength j ci column)
  show ?case
  proof (cases "j < height")
    case False
    then show ?thesis using "1.prems" by (subst fill_column.simps) simp
  next
    case True
    have n: "\<not> j < columnLength" using "1.prems" by simp
    have "fill_column se height columnLength j ci column
          = fill_column se height columnLength (j + 1) ci (column @ [Null])"
      using True n by (subst fill_column.simps) simp
    also have "\<dots> = ((column @ [Null]) @ replicate (nat (height - (j + 1))) Null, ci)"
      using "1.IH"(2)[OF True n] "1.prems" True by simp
    also have "(column @ [Null]) @ replicate (nat (height - (j + 1))) Null
               = column @ replicate (Suc (nat (height - (j + 1)))) Null" by simp
    also have "Suc (nat (height - (j + 1))) = nat (height - j)" using True by simp
    finally show ?thesis .
  qed
qed

lemma fill_column_balls:
  "0 \<le> j \<Longrightarrow> j \<le> columnLength \<Longrightarrow> columnLength \<le> height \<Longrightarrow> 0 \<le> ci \<Longrightarrow>
   ci + (columnLength - j) \<le> int (length se) \<Longrightarrow>
   fill_column se height columnLength j ci column =
     (column @ map Color (take (nat (columnLength - j)) (drop (nat ci) se))
        @ replicate (nat (height - columnLength)) Null, ci + (columnLength - j))"
proof (induction se height columnLength j ci column rule: fill_column.induct)
  case (1 se height columnLength j ci column)
  show ?case
  proof (cases "j < columnLength")
    case False
    then have "j = columnLength" using "1.prems" by simp
    then show ?thesis using fill_column_nulls[of columnLength j height se ci column] "1.prems"
      by simp
  next
    case True
    then have h: "j < height" using "1.prems" by simp
    have ci: "nat ci < length se" using True "1.prems" by linarith
    have e: "element_at se ci = Color (se ! nat ci)"
      using ci "1.prems"(4) by (simp add: element_at_def array_get_def)
    have "fill_column se height columnLength j ci column
          = fill_column se height columnLength (j + 1) (ci + 1) (column @ [Color (se ! nat ci)])"
      using True h e by (subst fill_column.simps) simp
    also have "\<dots> = ((column @ [Color (se ! nat ci)])
        @ map Color (take (nat (columnLength - (j + 1))) (drop (nat (ci + 1)) se))
        @ replicate (nat (height - columnLength)) Null, ci + 1 + (columnLength - (j + 1)))"
      using "1.IH"(1)[OF h True] "1.prems" True e by simp
    also have "(column @ [Color (se ! nat ci)])
        @ map Color (take (nat (columnLength - (j + 1))) (drop (nat (ci + 1)) se))
        @ replicate (nat (height - columnLength)) Null
      = column @ map Color (se ! nat ci # take (nat (columnLength - (j + 1))) (drop (Suc (nat ci)) se))
        @ replicate (nat (height - columnLength)) Null"
      using "1.prems"(4) by (simp add: nat_add_distrib)
    also have "se ! nat ci # take (nat (columnLength - (j + 1))) (drop (Suc (nat ci)) se)
        = take (Suc (nat (columnLength - (j + 1)))) (drop (nat ci) se)"
      using ci by (simp add: Cons_nth_drop_Suc[symmetric])
    also have "Suc (nat (columnLength - (j + 1))) = nat (columnLength - j)" using True by simp
    finally show ?thesis by simp
  qed
qed

lemma fill_columns_towers:
  "\<forall>n\<in>set p. 0 \<le> n \<and> n \<le> height \<Longrightarrow> 0 \<le> ci \<Longrightarrow> ci + sum_list p \<le> int (length se) \<Longrightarrow>
   fill_columns se height p ci initialState = initialState @ towers_of se height p ci"
proof (induction p arbitrary: ci initialState)
  case Nil
  then show ?case by simp
next
  case (Cons n p)
  have n: "0 \<le> n" "n \<le> height" using Cons.prems(1) by simp_all
  have s: "0 \<le> sum_list p" using Cons.prems(1) by (simp add: sum_list_nonneg)
  have c: "fill_column se height n 0 ci [] =
        (map Color (take (nat n) (drop (nat ci) se)) @ replicate (nat (height - n)) Null, ci + n)"
    using fill_column_balls[of 0 n height ci se "[]"] n s Cons.prems(2,3) by simp
  have "fill_columns se height p (ci + n)
          (initialState @ [map Color (take (nat n) (drop (nat ci) se)) @ replicate (nat (height - n)) Null])
        = (initialState @ [map Color (take (nat n) (drop (nat ci) se)) @ replicate (nat (height - n)) Null])
          @ towers_of se height p (ci + n)"
    using Cons.IH[of "ci + n"] Cons.prems n by (simp add: add.assoc)
  then show ?case using c by simp
qed

lemma towers_of_length: "length (towers_of se height p ci) = length p"
  by (induction p arbitrary: ci) simp_all

lemma towers_of_nth:
  "\<forall>n\<in>set p. 0 \<le> n \<and> n \<le> height \<Longrightarrow> 0 \<le> ci \<Longrightarrow> ci + sum_list p \<le> int (length se) \<Longrightarrow>
   c < length p \<Longrightarrow>
   \<exists>balls. length balls = nat (p ! c) \<and>
     towers_of se height p ci ! c = map Color balls @ replicate (nat height - nat (p ! c)) Null"
proof (induction p arbitrary: ci c)
  case Nil
  then show ?case by simp
next
  case (Cons n p)
  have n: "0 \<le> n" "n \<le> height" using Cons.prems(1) by simp_all
  have s: "0 \<le> sum_list p" using Cons.prems(1) by (simp add: sum_list_nonneg)
  show ?case
  proof (cases c)
    case 0
    have l: "length (take (nat n) (drop (nat ci) se)) = nat n"
      using n s Cons.prems(2,3) by simp
    have "nat (height - n) = nat height - nat n" using n by simp
    then have "towers_of se height (n # p) ci ! 0 =
        map Color (take (nat n) (drop (nat ci) se)) @ replicate (nat height - nat n) Null"
      by simp
    then show ?thesis using 0 l by (intro exI[of _ "take (nat n) (drop (nat ci) se)"]) simp
  next
    case (Suc c')
    then show ?thesis using Cons.IH[of "ci + n" c'] Cons.prems n by (simp add: add.assoc)
  qed
qed

lemma towers_of_filled:
  "\<forall>n\<in>set p. 0 \<le> n \<and> n \<le> height \<Longrightarrow> 0 \<le> ci \<Longrightarrow> ci + sum_list p \<le> int (length se) \<Longrightarrow>
   map filled_slots (towers_of se height p ci) = p"
proof (induction p arbitrary: ci)
  case Nil
  then show ?case by simp
next
  case (Cons n p)
  have n: "0 \<le> n" "n \<le> height" using Cons.prems(1) by simp_all
  have s: "0 \<le> sum_list p" using Cons.prems(1) by (simp add: sum_list_nonneg)
  have l: "length (take (nat n) (drop (nat ci) se)) = nat n"
    using n s Cons.prems(2,3) by simp
  have "filter (\<lambda>v. v \<noteq> Null) (map Color (take (nat n) (drop (nat ci) se)))
        = map Color (take (nat n) (drop (nat ci) se))"
    by (simp add: filter_map comp_def)
  then have "filled_slots (map Color (take (nat n) (drop (nat ci) se))
                 @ replicate (nat (height - n)) Null) = n"
    using l n by (simp add: filled_slots_def)
  moreover have "map filled_slots (towers_of se height p (ci + n)) = p"
    using Cons.IH[of "ci + n"] Cons.prems n by (simp add: add.assoc)
  ultimately show ?case by simp
qed

lemma shuffle_length: "uniform s \<Longrightarrow> length (fst (shuffle xs s)) = length xs"
  using shuffle_mset[of s xs] by (metis size_mset)

lemma initializeState_towers:
  assumes "1 \<le> columns" "uniform s"
    and "fst (initializeState stack elements columns height s) = Inr board"
  shows "\<exists>p. fst (chooseBallsInColumn stack columns (int (length elements)) height
                    (snd (shuffle elements s))) = Inr (Some p) \<and>
             length p = nat columns \<and> (\<forall>n\<in>set p. 0 \<le> n \<and> n \<le> height) \<and>
             0 + sum_list p \<le> int (length (fst (shuffle elements s))) \<and>
             board = towers_of (fst (shuffle elements s)) height p 0"
proof -
  obtain se s1 where sh: "shuffle elements s = (se, s1)" by (cases "shuffle elements s")
  obtain r s2 where ch: "chooseBallsInColumn stack columns (int (length elements)) height s1 = (r, s2)"
    by (cases "chooseBallsInColumn stack columns (int (length elements)) height s1")
  have "\<exists>p. r = Inr (Some p) \<and> board = fill_columns se height p 0 []"
    using assms(3) sh ch by (cases r) (auto simp: initializeState_def split: option.splits)
  then obtain p where r: "r = Inr (Some p)" and b: "board = fill_columns se height p 0 []"
    by blast
  have u1: "uniform s1" using shuffle_uniform[OF assms(2), of elements] sh by simp
  have len: "length se = length elements"
    using shuffle_length[OF assms(2), of elements] sh by simp
  have p: "length p = nat columns \<and> (\<forall>x\<in>set p. 0 \<le> x \<and> x \<le> height) \<and>
           sum_list p = int (length elements)"
    using chooseBallsInColumn_sound[OF assms(1) _ u1, of "int (length elements)" stack height]
      ch r by simp
  have ran: "\<forall>n\<in>set p. 0 \<le> n \<and> n \<le> height" using p by simp
  have fit: "0 + sum_list p \<le> int (length se)" using p len by simp
  have "board = towers_of se height p 0"
    using fill_columns_towers[OF ran _ fit, of "[]"] b by simp
  then show ?thesis using sh ch r p fit by (intro exI[of _ p]) simp
qed

text \<open>
  Claim C8. For a partition \<open>p\<close> returned by \<open>chooseBallsInColumn\<close> inside
  \<open>initializeState\<close> (its sum is the number of colours), the board that is built has one
  column per entry of \<open>p\<close>; column \<open>c\<close> holds \<open>p[c]\<close> colours in rows \<open>0 .. p[c]-1\<close> and
  \<open>null\<close> above, so counting the slots that are not \<open>null\<close> in every column gives \<open>p\<close>
  back.
\<close>

theorem initializeState_columns:
  assumes "1 \<le> columns" "uniform s"
    and "shuffle elements s = (shuffleElements, s1)"
    and "chooseBallsInColumn stack columns (int (length elements)) height s1 = (Inr (Some p), s2)"
  shows "\<exists>board. initializeState stack elements columns height s = (Inr board, s2) \<and>
           length board = length p \<and>
           (\<forall>c<length p. \<exists>balls. length balls = nat (p ! c) \<and>
               board ! c = map Color balls @ replicate (nat height - nat (p ! c)) Null) \<and>
           map filled_slots board = p"
proof -
  have u1: "uniform s1" using shuffle_uniform[OF assms(2), of elements] assms(3) by simp
  have len: "length shuffleElements = length elements"
    using shuffle_length[OF assms(2), of elements] assms(3) by simp
  have p: "length p = nat columns \<and> (\<forall>x\<in>set p. 0 \<le> x \<and> x \<le> height) \<and>
           sum_list p = int (length elements)"
    using chooseBallsInColumn_sound[OF assms(1) _ u1, of "int (length elements)" stack height]
      assms(4) by simp
  have ran: "\<forall>n\<in>set p. 0 \<le> n \<and> n \<le> height" using p by simp
  have fit: "0 + sum_list p \<le> int (length shuffleElements)" using p len by simp
  have b: "fill_columns shuffleElements height p 0 [] = towers_of shuffleElements height p 0"
    using fill_columns_towers[OF ran _ fit, of "[]"] by simp
  have i: "initializeState stack elements columns height s
           = (Inr (towers_of shuffleElements height p 0), s2)"
    using assms(3,4) b by (simp add: initializeState_def)
  show ?thesis
  proof (intro exI conjI)
    show "initializeState stack elements columns height s
           = (Inr (towers_of shuffleElements height p 0), s2)" by (rule i)
    show "length (towers_of shuffleElements height p 0) = length p" by (rule towers_of_length)
    show "\<forall>c<length p. \<exists>balls. length balls = nat (p ! c) \<and>
             towers_of shuffleElements height p 0 ! c =
             map Color balls @ replicate (nat height - nat (p ! c)) Null"
      using towers_of_nth[OF ran _ fit] by simp
    show "map filled_slots (towers_of shuffleElements height p 0) = p"
      using towers_of_filled[OF ran _ fit] by simp
  qed
qed

theorem initializeState_columns_witness:
  "\<exists>board s'. initializeState 2 [''a'', ''b'', ''c''] 2 2 (\<lambda>_. 0) = (Inr board, s') \<and>
       map filled_slots board = [2, 1]"
proof -
  let ?s1 = "snd (shuffle [''a'', ''b'', ''c''] (\<lambda>_. 0))"
  let ?r = "chooseBallsInColumn 2 2 (int (length [''a'', ''b'', ''c''])) 2 ?s1"
  have u: "uniform (\<lambda>_. 0)" by (simp add: uniform_def)
  have sh: "shuffle [''a'', ''b'', ''c''] (\<lambda>_. 0)
            = (fst (shuffle [''a'', ''b'', ''c''] (\<lambda>_. 0)), ?s1)" by simp
  have "fst ?r = Inr (Some [2, 1])" by code_simp
  then have ch: "?r = (Inr (Some [2, 1]), snd ?r)" by (simp add: prod_eq_iff)
  show ?thesis using initializeState_columns[OF _ u sh ch] by auto
qed

section \<open>Columns and colours under clicks\<close>

lemma balls_of_tower: "balls_of (map Color balls @ replicate k Null) = balls"
proof (induction balls)
  case Nil
  then show ?case by (cases k) simp_all
next
  case (Cons b balls)
  then show ?case by simp
qed

lemma tower_iff:
  "tower height column \<longleftrightarrow>
   (\<exists>balls k. column = map Color balls @ replicate k Null \<and> length balls + k = nat height)"
proof
  assume t: "tower height column"
  define balls where "balls = balls_of column"
  have c: "column = map Color balls @ replicate (nat height - length balls) Null"
    and l: "length column = nat height"
    using t by (simp_all add: tower_def balls_def)
  have "length column = length balls + (nat height - length balls)"
    by (subst c) simp
  then have "length balls + (nat height - length balls) = nat height" using l by simp
  then show "\<exists>balls k. column = map Color balls @ replicate k Null \<and> length balls + k = nat height"
    using c by blast
next
  assume "\<exists>balls k. column = map Color balls @ replicate k Null \<and> length balls + k = nat height"
  then obtain balls k where c: "column = map Color balls @ replicate k Null"
    and l: "length balls + k = nat height" by blast
  have b: "balls_of column = balls" unfolding c by (rule balls_of_tower)
  have "k = nat height - length balls" using l by simp
  then show "tower height column" unfolding tower_def b using c l by simp
qed

lemma tower_get:
  assumes "0 \<le> i"
  shows "array_get (map Color balls @ replicate k Null) i =
     (if nat i < length balls then Some (Color (balls ! nat i))
      else if nat i < length balls + k then Some Null else None)"
  using assms by (auto simp: array_get_def nth_append)

lemma findTopPiece_from_tower:
  assumes "array_get (state g) columnIndex = Some (map Color balls @ replicate k Null)"
    and "int (length balls) - 1 \<le> i" "i < int (length balls) + int k"
  shows "findTopPiece_from g columnIndex i = Inr (int (length balls) - 1)"
  using assms
proof (induction g columnIndex i rule: findTopPiece_from.induct)
  case (1 g columnIndex i)
  show ?case
  proof (cases "0 \<le> i")
    case False
    then have "i = int (length balls) - 1" using "1.prems"(2) by simp
    then show ?thesis using False by (subst findTopPiece_from.simps) simp
  next
    case True
    show ?thesis
    proof (cases "nat i < length balls")
      case top: True
      then have i: "i = int (length balls) - 1" using "1.prems"(2) True by linarith
      have "slot_at (state g) columnIndex i = Inr (Color (balls ! nat i))"
        using "1.prems"(1) True top by (simp add: slot_at_def tower_get)
      then have "findTopPiece_from g columnIndex i = Inr i"
        using True by (subst findTopPiece_from.simps) simp
      then show ?thesis using i by simp
    next
      case False
      then have "nat i < length balls + k" using "1.prems"(3) True by linarith
      then have sa: "slot_at (state g) columnIndex i = Inr Null"
        using "1.prems"(1) True False by (simp add: slot_at_def tower_get)
      then have "findTopPiece_from g columnIndex i = findTopPiece_from g columnIndex (i - 1)"
        using True by (subst findTopPiece_from.simps) simp
      moreover have "findTopPiece_from g columnIndex (i - 1) = Inr (int (length balls) - 1)"
        using "1.IH"[OF True sa] "1.prems" False True by simp
      ultimately show ?thesis by simp
    qed
  qed
qed

lemma findTopPiece_tower:
  assumes "array_get (state g) columnIndex = Some (map Color balls @ replicate k Null)"
    and "HEIGHT g = int (length balls) + int k"
  shows "findTopPiece g columnIndex = Inr (int (length balls) - 1)"
  unfolding findTopPiece_def
  using findTopPiece_from_tower[OF assms(1), of "HEIGHT g - 1"] assms(2) by simp

lemma findEmptyRow_from_tower:
  assumes "array_get (state g) columnIndex = Some (map Color balls @ replicate k Null)"
    and "HEIGHT g = int (length balls) + int k"
    and "0 \<le> i" "i \<le> int (length balls)" "0 < k"
  shows "findEmptyRow_from g columnIndex i = Inr (int (length balls))"
  using assms
proof (induction g columnIndex i rule: findEmptyRow_from.induct)
  case (1 g columnIndex i)
  have le: "i \<le> HEIGHT g" using "1.prems"(2,4) by simp
  show ?case
  proof (cases "nat i < length balls")
    case True
    have sa: "slot_at (state g) columnIndex i = Inr (Color (balls ! nat i))"
      using "1.prems"(1,3) True by (simp add: slot_at_def tower_get)
    then have "findEmptyRow_from g columnIndex i = findEmptyRow_from g columnIndex (i + 1)"
      using le by (subst findEmptyRow_from.simps) simp
    moreover have "findEmptyRow_from g columnIndex (i + 1) = Inr (int (length balls))"
      using "1.IH"[OF le sa] "1.prems" True by simp
    ultimately show ?thesis by simp
  next
    case False
    then have i: "i = int (length balls)" using "1.prems"(3,4) by linarith
    have "slot_at (state g) columnIndex i = Inr Null"
      using "1.prems"(1,3,5) i by (simp add: slot_at_def tower_get)
    then have "findEmptyRow_from g columnIndex i = Inr i"
      using le by (subst findEmptyRow_from.simps) simp
    then show ?thesis using i by simp
  qed
qed

lemma findEmptyRow_tower:
  assumes "array_get (state g) columnIndex = Some (map Color balls @ replicate k Null)"
    and "HEIGHT g = int (length balls) + int k"
  shows "findEmptyRow g columnIndex = Inr (if k = 0 then - 1 else int (length balls))"
proof (cases k)
  case 0
  have "\<forall>v\<in>set (map Color balls @ replicate k Null). v \<noteq> Null" using 0 by auto
  then show ?thesis
    unfolding findEmptyRow_def using findEmptyRow_from_full[OF assms(1)] 0 by simp
next
  case (Suc k')
  then show ?thesis
    unfolding findEmptyRow_def
    using findEmptyRow_from_tower[of g columnIndex balls k 0] assms by simp
qed

lemma tower_put:
  assumes "0 < k"
  shows "column_set (map Color bt @ replicate k Null) (int (length bt)) (Color x)
         = map Color (bt @ [x]) @ replicate (k - 1) Null"
proof -
  obtain k' where k: "k = Suc k'" using assms by (cases k) auto
  have "(map Color bt @ replicate k Null)[length bt := Color x]
        = map Color bt @ (replicate k Null)[0 := Color x]"
    by (simp add: list_update_append)
  also have "\<dots> = map Color (bt @ [x]) @ replicate (k - 1) Null" using k by simp
  finally show ?thesis using assms by (simp add: column_set_def)
qed

lemma tower_take:
  "column_set (map Color (bs @ [x]) @ replicate k Null) (int (length bs)) Null
   = map Color bs @ replicate (Suc k) Null"
proof -
  have "(map Color (bs @ [x]) @ replicate k Null)[length bs := Null]
        = (map Color bs @ (Color x # replicate k Null))[length bs := Null]" by simp
  also have "\<dots> = map Color bs @ (Color x # replicate k Null)[0 := Null]"
    by (simp add: list_update_append)
  finally show ?thesis by (simp add: column_set_def)
qed

lemma slot_colors_tower:
  "mset (concat (map slot_colors (map Color balls @ replicate k Null))) = mset balls"
proof -
  have a: "concat (map slot_colors (map Color balls)) = balls"
    by (induction balls) simp_all
  have b: "concat (map slot_colors (replicate k (Null :: 'a slot))) = []"
    by (induction k) simp_all
  show ?thesis using a b by simp
qed

lemma board_colors_sum:
  "board_colors board = sum_list (map (\<lambda>column. mset (concat (map slot_colors column))) board)"
  unfolding board_colors_def by (induction board) simp_all

lemma sum_list_update_mset:
  fixes f :: "'b \<Rightarrow> 'c multiset"
  shows "i < length xs \<Longrightarrow>
         sum_list (map f (xs[i := a])) + f (xs ! i) = sum_list (map f xs) + f a"
proof (induction xs arbitrary: i)
  case Nil
  then show ?case by simp
next
  case (Cons y ys)
  show ?case
  proof (cases i)
    case 0
    then show ?thesis by simp
  next
    case (Suc i')
    then have "sum_list (map f (ys[i' := a])) + f (ys ! i') = sum_list (map f ys) + f a"
      using Cons.IH[of i'] Cons.prems by simp
    then show ?thesis using Suc by (simp add: add.assoc)
  qed
qed

lemma board_colors_move:
  assumes "i < length board" "j < length board" "i \<noteq> j"
    and "board ! i = map Color bt @ replicate kt Null"
    and "board ! j = map Color (bs @ [x]) @ replicate ks Null"
  shows "board_colors (board[i := map Color (bt @ [x]) @ replicate kt' Null,
                             j := map Color bs @ replicate ks' Null])
         = board_colors board"
proof -
  let ?f = "\<lambda>column :: 'a slot list. mset (concat (map slot_colors column))"
  let ?a = "map Color (bt @ [x]) @ replicate kt' Null"
  let ?b = "map Color bs @ replicate ks' Null"
  have 1: "sum_list (map ?f (board[i := ?a])) + ?f (board ! i) = sum_list (map ?f board) + ?f ?a"
    using assms(1) by (rule sum_list_update_mset)
  have "sum_list (map ?f (board[i := ?a, j := ?b])) + ?f ((board[i := ?a]) ! j)
        = sum_list (map ?f (board[i := ?a])) + ?f ?b"
    using assms(2) by (intro sum_list_update_mset) simp
  then have 2: "sum_list (map ?f (board[i := ?a, j := ?b])) + ?f (board ! j)
        = sum_list (map ?f (board[i := ?a])) + ?f ?b"
    using assms(3) by simp
  have fi: "?f (board ! i) = mset bt" unfolding assms(4) by (rule slot_colors_tower)
  have fj: "?f (board ! j) = mset (bs @ [x])" unfolding assms(5) by (rule slot_colors_tower)
  have fa: "?f ?a = mset (bt @ [x])" by (rule slot_colors_tower)
  have fb: "?f ?b = mset bs" by (rule slot_colors_tower)
  have "sum_list (map ?f (board[i := ?a, j := ?b])) + mset (bs @ [x]) + mset bt
        = sum_list (map ?f (board[i := ?a])) + mset bt + mset bs"
    using 2 fj fb by (simp add: ac_simps)
  also have "\<dots> = sum_list (map ?f board) + mset (bt @ [x]) + mset bs"
    using 1 fi fa by simp
  finally have "sum_list (map ?f (board[i := ?a, j := ?b])) = sum_list (map ?f board)"
    by simp
  then show ?thesis by (simp add: board_colors_sum)
qed

lemma stacked_column:
  assumes "stacked g" "0 \<le> c" "c < COLUMNS g"
  shows "\<exists>balls k. array_get (state g) c = Some (map Color balls @ replicate k Null) \<and>
           state g ! nat c = map Color balls @ replicate k Null \<and>
           HEIGHT g = int (length balls) + int k \<and> nat c < length (state g)"
proof -
  have l: "nat c < length (state g)" using assms by (simp add: stacked_def)
  then have "tower (HEIGHT g) (state g ! nat c)" using assms(1) by (simp add: stacked_def)
  then obtain balls k where c: "state g ! nat c = map Color balls @ replicate k Null"
    and h: "length balls + k = nat (HEIGHT g)" using tower_iff by blast
  have "0 \<le> HEIGHT g" using assms(1) by (simp add: stacked_def)
  then have "HEIGHT g = int (length balls) + int k" using h by linarith
  moreover have "array_get (state g) c = Some (state g ! nat c)"
    using l assms(2) by (simp add: array_get_def)
  ultimately show ?thesis using c l by auto
qed

lemma stacked_render:
  assumes "stacked g"
  shows "renderGame g = Inr ()"
  using assms by (intro renderGame_returns) (simp_all add: stacked_def)

lemma handleFirstClick_stacked:
  assumes "stacked g" "selectedPiece g = None" "0 \<le> c" "c < COLUMNS g"
  shows "\<exists>sel. handleClick g c = Inr (g\<lparr>selectedPiece := sel\<rparr>) \<and>
           selection_on_top (g\<lparr>selectedPiece := sel\<rparr>)"
proof -
  obtain balls k where a: "array_get (state g) c = Some (map Color balls @ replicate k Null)"
    and h: "HEIGHT g = int (length balls) + int k"
    using stacked_column[OF assms(1,3,4)] by blast
  have t: "findTopPiece g c = Inr (int (length balls) - 1)"
    by (rule findTopPiece_tower[OF a h])
  have rg: "renderGame (g\<lparr>selectedPiece := sel\<rparr>) = Inr ()" for sel
    using assms(1) by (intro stacked_render) (simp add: stacked_def)
  show ?thesis
  proof (cases "balls = []")
    case True
    then have "handleFirstClick g c = Inr (g\<lparr>selectedPiece := None\<rparr>)"
      using t by (simp add: handleFirstClick_def)
    then have "handleClick g c = Inr (g\<lparr>selectedPiece := None\<rparr>)"
      using assms(2) rg by (intro handleClick_render) simp_all
    then show ?thesis by (auto simp: selection_on_top_def)
  next
    case False
    let ?g = "g\<lparr>selectedPiece := Some (c, int (length balls) - 1)\<rparr>"
    have "handleFirstClick g c = Inr ?g"
      using t False by (simp add: handleFirstClick_def)
    then have "handleClick g c = Inr ?g"
      using assms(2) rg by (intro handleClick_render) simp_all
    moreover have "findTopPiece ?g c = Inr (int (length balls) - 1)"
      using a h by (intro findTopPiece_tower) simp_all
    ultimately show ?thesis using assms(3,4) False by (auto simp: selection_on_top_def)
  qed
qed

lemma handleSecondClick_stacked:
  assumes "stacked g" "selection_on_top g" "selectedPiece g = Some (src, row)"
    and "0 \<le> c" "c < COLUMNS g"
  shows "\<exists>board. handleClick g c = Inr (g\<lparr>state := board, selectedPiece := None\<rparr>) \<and>
           stacked (g\<lparr>state := board, selectedPiece := None\<rparr>) \<and>
           board_colors board = board_colors (state g) \<and>
           (if c = src \<or> findEmptyRow g c = Inr (- 1) then board = state g
            else \<exists>t x. findEmptyRow g c = Inr t \<and> findTopPiece g src = Inr row \<and>
                   slot_at (state g) src row = Inr (Color x) \<and>
                   slot_at (state g) c t = Inr Null \<and>
                   (\<forall>r. 0 \<le> r \<and> r < t \<longrightarrow> (\<exists>y. slot_at (state g) c r = Inr (Color y))) \<and>
                   (\<forall>r. row < r \<and> r < HEIGHT g \<longrightarrow> slot_at (state g) src r = Inr Null) \<and>
                   board = (state g)[nat c := (state g ! nat c)[nat t := Color x],
                                     nat src := (state g ! nat src)[nat row := Null]])"
proof -
  have sel: "0 \<le> src" "src < COLUMNS g" "findTopPiece g src = Inr row" "row \<noteq> - 1"
    using assms(2,3) by (simp_all add: selection_on_top_def)
  have same: "g\<lparr>state := state g, selectedPiece := None\<rparr> = g\<lparr>selectedPiece := None\<rparr>"
    by simp
  have st: "stacked (g\<lparr>selectedPiece := None\<rparr>)" using assms(1) by (simp add: stacked_def)
  obtain bt kt where at: "array_get (state g) c = Some (map Color bt @ replicate kt Null)"
    and ct: "state g ! nat c = map Color bt @ replicate kt Null"
    and ht: "HEIGHT g = int (length bt) + int kt" and lt: "nat c < length (state g)"
    using stacked_column[OF assms(1,4,5)] by blast
  have e: "findEmptyRow g c = Inr (if kt = 0 then - 1 else int (length bt))"
    by (rule findEmptyRow_tower[OF at ht])
  show ?thesis
  proof (cases "c = src \<or> kt = 0")
    case True
    then have "handleSecondClick g c = Inr (g\<lparr>selectedPiece := None\<rparr>)"
      using assms(3) e by (auto simp: handleSecondClick_def)
    then have "handleClick g c = Inr (g\<lparr>selectedPiece := None\<rparr>)"
      using assms(3) stacked_render[OF st] by (intro handleClick_render) simp_all
    moreover have "c = src \<or> findEmptyRow g c = Inr (- 1)" using True e by auto
    ultimately show ?thesis using st same by (intro exI[of _ "state g"]) simp
  next
    case False
    then have ne: "c \<noteq> src" and kt: "0 < kt" by simp_all
    obtain bs ks where as: "array_get (state g) src = Some (map Color bs @ replicate ks Null)"
      and cs: "state g ! nat src = map Color bs @ replicate ks Null"
      and hs: "HEIGHT g = int (length bs) + int ks" and ls: "nat src < length (state g)"
      using stacked_column[OF assms(1) sel(1,2)] by blast
    have "findTopPiece g src = Inr (int (length bs) - 1)"
      by (rule findTopPiece_tower[OF as hs])
    then have row: "row = int (length bs) - 1" using sel(3) by simp
    then have "bs \<noteq> []" using sel(4) by auto
    then obtain bs' x where bs: "bs = bs' @ [x]" by (cases bs rule: rev_cases) auto
    have row': "row = int (length bs')" "nat row = length bs'" using row bs by simp_all
    have nn: "nat c \<noteq> nat src" using ne assms(4) sel(1) by simp
    have "array_get (map Color bs @ replicate ks Null) row = Some (Color (bs ! nat row))"
      using tower_get[of row bs ks] row' bs by simp
    moreover have "bs ! nat row = x" using row' bs by simp
    ultimately have piece: "slot_at (state g) src row = Inr (Color x)"
      using as by (simp add: slot_at_def)
    have target: "slot_at (state g) c (int (length bt)) = Inr Null"
      using at kt by (simp add: slot_at_def tower_get)
    let ?t' = "map Color (bt @ [x]) @ replicate (kt - 1) Null"
    let ?s' = "map Color bs' @ replicate (Suc ks) Null"
    let ?moved = "(state g)[nat c := ?t']"
    let ?board = "?moved[nat src := ?s']"
    have put: "slot_set (state g) c (int (length bt)) (Color x) = Inr ?moved"
      using at tower_put[OF kt, of bt x] by (simp add: slot_set_def)
    have "src < int (length (state g))" using ls sel(1) by linarith
    then have "array_get ?moved src = Some (map Color (bs' @ [x]) @ replicate ks Null)"
      using cs nn sel(1) bs by (simp add: array_get_def)
    then have take: "slot_set ?moved src row Null = Inr ?board"
      using tower_take[of bs' x ks] row' by (simp add: slot_set_def)
    have second: "handleSecondClick g c = Inr (g\<lparr>state := ?board, selectedPiece := None\<rparr>)"
      using assms(3) ne e kt piece put take
      by (simp add: handleSecondClick_def)
    have t1: "tower (HEIGHT g) ?t'"
      unfolding tower_iff using ht kt by (intro exI[of _ "bt @ [x]"] exI[of _ "kt - 1"]) simp
    have t2: "tower (HEIGHT g) ?s'"
      unfolding tower_iff using hs bs by (intro exI[of _ "bs'"] exI[of _ "Suc ks"]) simp
    have "\<forall>column\<in>set ?board. tower (HEIGHT g) column"
    proof
      fix column assume "column \<in> set ?board"
      then have "column = ?s' \<or> column \<in> set ?moved" using set_update_subset_insert by fastforce
      then have "column = ?s' \<or> column = ?t' \<or> column \<in> set (state g)"
        using set_update_subset_insert by fastforce
      then show "tower (HEIGHT g) column" using t1 t2 assms(1) by (auto simp: stacked_def)
    qed
    then have st': "stacked (g\<lparr>state := ?board, selectedPiece := None\<rparr>)"
      using assms(1) by (simp add: stacked_def)
    have click: "handleClick g c = Inr (g\<lparr>state := ?board, selectedPiece := None\<rparr>)"
      using second assms(3) stacked_render[OF st'] by (intro handleClick_render) simp_all
    have col: "board_colors ?board = board_colors (state g)"
      using board_colors_move[OF lt ls nn ct, of bs' x ks "kt - 1" "Suc ks"] cs bs by simp
    have upd1: "(state g ! nat c)[nat (int (length bt)) := Color x] = ?t'"
      using tower_put[OF kt, of bt x] ct kt by (simp add: column_set_def)
    have upd2: "(state g ! nat src)[nat row := Null] = ?s'"
      using tower_take[of bs' x ks] cs bs row' by (simp add: column_set_def)
    have shape: "?board = (state g)[nat c := (state g ! nat c)[nat (int (length bt)) := Color x],
                                     nat src := (state g ! nat src)[nat row := Null]]"
      by (simp only: upd1 upd2)
    have e': "findEmptyRow g c = Inr (int (length bt))" using e kt by simp
    have below: "\<forall>r. 0 \<le> r \<and> r < int (length bt) \<longrightarrow>
                   (\<exists>y. slot_at (state g) c r = Inr (Color y))"
    proof (intro allI impI)
      fix r assume r: "0 \<le> r \<and> r < int (length bt)"
      then have "nat r < length bt" by linarith
      then show "\<exists>y. slot_at (state g) c r = Inr (Color y)"
        using at r by (simp add: slot_at_def tower_get)
    qed
    have above: "\<forall>r. row < r \<and> r < HEIGHT g \<longrightarrow> slot_at (state g) src r = Inr Null"
    proof (intro allI impI)
      fix r assume r: "row < r \<and> r < HEIGHT g"
      then have "0 \<le> r" "\<not> nat r < length bs" "nat r < length bs + ks"
        using row hs by linarith+
      then show "slot_at (state g) src r = Inr Null"
        using as by (simp add: slot_at_def tower_get)
    qed
    have "\<not> (c = src \<or> findEmptyRow g c = Inr (- 1))" using ne e' by simp
    moreover have "\<exists>t x. findEmptyRow g c = Inr t \<and> findTopPiece g src = Inr row \<and>
                   slot_at (state g) src row = Inr (Color x) \<and>
                   slot_at (state g) c t = Inr Null \<and>
                   (\<forall>r. 0 \<le> r \<and> r < t \<longrightarrow> (\<exists>y. slot_at (state g) c r = Inr (Color y))) \<and>
                   (\<forall>r. row < r \<and> r < HEIGHT g \<longrightarrow> slot_at (state g) src r = Inr Null) \<and>
                   ?board = (state g)[nat c := (state g ! nat c)[nat t := Color x],
                                     nat src := (state g ! nat src)[nat row := Null]]"
      using e' sel(3) piece target below above shape by blast
    ultimately show ?thesis using click st' col by (intro exI[of _ ?board]) simp
  qed
qed

lemma handleClick_stacked:
  assumes "stacked g" "selection_on_top g" "0 \<le> c" "c < COLUMNS g"
  shows "\<exists>g'. handleClick g c = Inr g' \<and> stacked g' \<and> selection_on_top g' \<and>
           COLUMNS g' = COLUMNS g \<and> board_colors (state g') = board_colors (state g) \<and>
           (case selectedPiece g of
              None \<Rightarrow> state g' = state g
            | Some (src, row) \<Rightarrow>
                if c = src \<or> findEmptyRow g c = Inr (- 1) then state g' = state g
                else \<exists>t x. findEmptyRow g c = Inr t \<and> findTopPiece g src = Inr row \<and>
                       slot_at (state g) src row = Inr (Color x) \<and>
                       slot_at (state g) c t = Inr Null \<and>
                       (\<forall>r. 0 \<le> r \<and> r < t \<longrightarrow> (\<exists>y. slot_at (state g) c r = Inr (Color y))) \<and>
                       (\<forall>r. row < r \<and> r < HEIGHT g \<longrightarrow> slot_at (state g) src r = Inr Null) \<and>
                       state g' = (state g)[nat c := (state g ! nat c)[nat t := Color x],
                                            nat src := (state g ! nat src)[nat row := Null]])"
proof (cases "selectedPiece g")
  case None
  obtain sel where h: "handleClick g c = Inr (g\<lparr>selectedPiece := sel\<rparr>)"
    and t: "selection_on_top (g\<lparr>selectedPiece := sel\<rparr>)"
    using handleFirstClick_stacked[OF assms(1) None assms(3,4)] by blast
  let ?g' = "g\<lparr>selectedPiece := sel\<rparr>"
  have st: "stacked ?g'" using assms(1) by (simp add: stacked_def)
  have cg: "COLUMNS ?g' = COLUMNS g" by simp
  have col: "board_colors (state ?g') = board_colors (state g)" by simp
  have d: "state ?g' = state g" by simp
  show ?thesis unfolding None option.case
    using h st t cg col d by blast
next
  case (Some sp)
  obtain src row where sp: "sp = (src, row)" by (cases sp)
  have s: "selectedPiece g = Some (src, row)" using Some sp by simp
  obtain board where h: "handleClick g c = Inr (g\<lparr>state := board, selectedPiece := None\<rparr>)"
    and st: "stacked (g\<lparr>state := board, selectedPiece := None\<rparr>)"
    and col: "board_colors board = board_colors (state g)"
    and d: "if c = src \<or> findEmptyRow g c = Inr (- 1) then board = state g
            else \<exists>t x. findEmptyRow g c = Inr t \<and> findTopPiece g src = Inr row \<and>
                   slot_at (state g) src row = Inr (Color x) \<and>
                   slot_at (state g) c t = Inr Null \<and>
                   (\<forall>r. 0 \<le> r \<and> r < t \<longrightarrow> (\<exists>y. slot_at (state g) c r = Inr (Color y))) \<and>
                   (\<forall>r. row < r \<and> r < HEIGHT g \<longrightarrow> slot_at (state g) src r = Inr Null) \<and>
                   board = (state g)[nat c := (state g ! nat c)[nat t := Color x],
                                     nat src := (state g ! nat src)[nat row := Null]]"
    using handleSecondClick_stacked[OF assms(1,2) s assms(3,4)] by blast
  let ?g' = "g\<lparr>state := board, selectedPiece := None\<rparr>"
  have t: "selection_on_top ?g'" by (simp add: selection_on_top_def)
  have cg: "COLUMNS ?g' = COLUMNS g" by simp
  have b: "state ?g' = board" by simp
  show ?thesis unfolding s option.case prod.case
  proof (intro exI[of _ ?g'] conjI)
    show "handleClick g c = Inr ?g'" by (rule h)
    show "stacked ?g'" by (rule st)
    show "selection_on_top ?g'" by (rule t)
    show "COLUMNS ?g' = COLUMNS g" by (rule cg)
    show "board_colors (state ?g') = board_colors (state g)" unfolding b by (rule col)
    show "if c = src \<or> findEmptyRow g c = Inr (- 1) then state ?g' = state g
            else \<exists>t x. findEmptyRow g c = Inr t \<and> findTopPiece g src = Inr row \<and>
                   slot_at (state g) src row = Inr (Color x) \<and>
                   slot_at (state g) c t = Inr Null \<and>
                   (\<forall>r. 0 \<le> r \<and> r < t \<longrightarrow> (\<exists>y. slot_at (state g) c r = Inr (Color y))) \<and>
                   (\<forall>r. row < r \<and> r < HEIGHT g \<longrightarrow> slot_at (state g) src r = Inr Null) \<and>
                   state ?g' = (state g)[nat c := (state g ! nat c)[nat t := Color x],
                                     nat src := (state g ! nat src)[nat row := Null]]"
      unfolding b by (rule d)
  qed
qed

lemma handleClicks_stacked:
  assumes "stacked g" "selection_on_top g" "\<forall>c\<in>set clicks. 0 \<le> c \<and> c < COLUMNS g"
  shows "\<exists>g'. handleClicks g clicks = Inr g' \<and> stacked g' \<and> selection_on_top g' \<and>
           COLUMNS g' = COLUMNS g \<and> board_colors (state g') = board_colors (state g)"
  using assms
proof (induction clicks arbitrary: g)
  case Nil
  then show ?case by simp
next
  case (Cons c clicks)
  have c: "0 \<le> c" "c < COLUMNS g" using Cons.prems(3) by simp_all
  obtain g1 where h: "handleClick g c = Inr g1" and s1: "stacked g1" "selection_on_top g1"
    and c1: "COLUMNS g1 = COLUMNS g" and b1: "board_colors (state g1) = board_colors (state g)"
    using handleClick_stacked[OF Cons.prems(1,2) c] by blast
  have "\<forall>c\<in>set clicks. 0 \<le> c \<and> c < COLUMNS g1" using Cons.prems(3) c1 by simp
  then obtain g' where "handleClicks g1 clicks = Inr g'" "stacked g'" "selection_on_top g'"
    "COLUMNS g' = COLUMNS g1" "board_colors (state g') = board_colors (state g1)"
    using Cons.IH[OF s1] by blast
  then show ?case using h c1 b1 by (intro exI[of _ g']) simp
qed

lemma initializeState_stacked:
  assumes "1 \<le> columns" "uniform s"
    and "fst (initializeState stack elements columns height s) = Inr board"
    and "nat columns \<le> length reference"
  shows "stacked \<lparr>COLUMNS = columns, HEIGHT = height, state = board,
                  referenceState = reference, selectedPiece = None\<rparr>"
proof -
  obtain p where lp: "length p = nat columns" and ran: "\<forall>n\<in>set p. 0 \<le> n \<and> n \<le> height"
    and fit: "0 + sum_list p \<le> int (length (fst (shuffle elements s)))"
    and b: "board = towers_of (fst (shuffle elements s)) height p 0"
    using initializeState_towers[OF assms(1,2,3)] by blast
  have "p \<noteq> []" using lp assms(1) by auto
  then obtain n where "n \<in> set p" by (cases p) auto
  then have h: "0 \<le> height" using ran by force
  have l: "length board = nat columns" using b lp by (simp add: towers_of_length)
  have "tower height column" if "column \<in> set board" for column
  proof -
    have "\<exists>c<length board. board ! c = column"
      using that by (simp only: in_set_conv_nth)
    then obtain c where c0: "c < length board" "board ! c = column" by blast
    have c: "c < length p" using c0(1) l lp by simp
    have "\<exists>balls. length balls = nat (p ! c) \<and>
       towers_of (fst (shuffle elements s)) height p 0 ! c
         = map Color balls @ replicate (nat height - nat (p ! c)) Null"
      by (rule towers_of_nth[OF ran _ fit c]) simp
    then obtain balls where bl: "length balls = nat (p ! c)"
      and bc: "column = map Color balls @ replicate (nat height - nat (p ! c)) Null"
      using b c0(2) by auto
    have "p ! c \<in> set p" using c by simp
    then have "nat (p ! c) \<le> nat height" using ran by (simp add: nat_mono)
    then have "length balls + (nat height - nat (p ! c)) = nat height" using bl by simp
    then show ?thesis unfolding tower_iff using bc by blast
  qed
  then show ?thesis using h l assms(4) by (simp add: stacked_def)
qed

lemma tower_no_floating:
  assumes "tower height column" "i < j" "j < length column" "column ! i = Null"
  shows "column ! j = Null"
proof -
  obtain balls k where c: "column = map Color balls @ replicate k Null"
    using assms(1) tower_iff by blast
  have "\<not> i < length balls" using assms(4) c by (auto simp: nth_append)
  then have "\<not> j < length balls" using assms(2) by simp
  then show ?thesis using assms(3) c by (simp add: nth_append)
qed

text \<open>
  Claim C2. Start from a board built by \<open>initializeState\<close> with nothing selected and a
  reference board that has a column for every column index (as every board built by
  \<open>initializeState\<close> has), and handle any finite sequence of clicks on columns of the
  board. No click throws, and in
  the resulting board every column is a run of colours from row 0 followed by \<open>null\<close>
  slots only: no colour lies above an empty slot.
\<close>

theorem columns_stay_stacked:
  assumes "1 \<le> columns" "uniform s"
    and "fst (initializeState stack elements columns height s) = Inr board"
    and "nat columns \<le> length reference"
    and "\<forall>c\<in>set clicks. 0 \<le> c \<and> c < columns"
  shows "\<exists>g. handleClicks \<lparr>COLUMNS = columns, HEIGHT = height, state = board,
                  referenceState = reference, selectedPiece = None\<rparr> clicks = Inr g \<and>
           (\<forall>column\<in>set (state g).
              (\<exists>balls k. column = map Color balls @ replicate k Null) \<and>
              (\<forall>i j. i < j \<and> j < length column \<and> column ! i = Null \<longrightarrow> column ! j = Null))"
proof -
  let ?g0 = "\<lparr>COLUMNS = columns, HEIGHT = height, state = board,
                  referenceState = reference, selectedPiece = None\<rparr>"
  have s0: "stacked ?g0" by (rule initializeState_stacked[OF assms(1,2,3,4)])
  have t0: "selection_on_top ?g0" by (simp add: selection_on_top_def)
  have "\<forall>c\<in>set clicks. 0 \<le> c \<and> c < COLUMNS ?g0" using assms(5) by simp
  then obtain g where g: "handleClicks ?g0 clicks = Inr g" and s: "stacked g"
    using handleClicks_stacked[OF s0 t0] by blast
  have "(\<exists>balls k. column = map Color balls @ replicate k Null) \<and>
        (\<forall>i j. i < j \<and> j < length column \<and> column ! i = Null \<longrightarrow> column ! j = Null)"
    if "column \<in> set (state g)" for column
  proof -
    have t: "tower (HEIGHT g) column" using s that by (simp add: stacked_def)
    then obtain balls k where "column = map Color balls @ replicate k Null"
      unfolding tower_iff by blast
    then show ?thesis using tower_no_floating[OF t] by blast
  qed
  then show ?thesis using g by blast
qed

theorem columns_stay_stacked_witness:
  "\<exists>g. handleClicks \<lparr>COLUMNS = 2, HEIGHT = 2,
            state = [[Color ''c'', Color ''a''], [Color ''b'', Null]],
            referenceState = [[Color ''a'', Null], [Color ''c'', Color ''b'']],
            selectedPiece = None\<rparr> [0, 1] = Inr g \<and>
        (\<forall>column\<in>set (state g).
              (\<exists>balls k. column = map Color balls @ replicate k Null) \<and>
              (\<forall>i j. i < j \<and> j < length column \<and> column ! i = Null \<longrightarrow> column ! j = Null))"
proof -
  have u: "uniform (\<lambda>_. 0)" by (simp add: uniform_def)
  have i: "fst (initializeState 2 [''a'', ''b'', ''c''] 2 2 (\<lambda>_. 0))
           = Inr [[Color ''c'', Color ''a''], [Color ''b'', Null]]"
    by code_simp
  have c: "\<forall>c\<in>set [0, 1 :: int]. 0 \<le> c \<and> c < 2" by simp
  show ?thesis by (rule columns_stay_stacked[OF _ u i _ c]) simp_all
qed

text \<open>
  Claim C10. In every game reached from a board built by \<open>initializeState\<close> (with a
  reference board that has a column for every column index) by clicks on columns of the
  board, one more such click keeps the multiset of colours on the board.
  With nothing selected, with a click on the selected column, or with a full target
  column, every slot is unchanged. Otherwise exactly one colour moves: the selected
  piece, which is the top piece of its column (every row above it holds \<open>null\<close>), goes
  to the row that \<open>findEmptyRow\<close> returns for the target column, a slot that held \<open>null\<close>
  with a colour in every row below it, and its old slot becomes \<open>null\<close>.
\<close>

theorem handleClick_keeps_colors:
  assumes "1 \<le> columns" "uniform s"
    and "fst (initializeState stack elements columns height s) = Inr board"
    and "nat columns \<le> length reference"
    and "\<forall>c\<in>set clicks. 0 \<le> c \<and> c < columns"
    and "handleClicks \<lparr>COLUMNS = columns, HEIGHT = height, state = board,
                  referenceState = reference, selectedPiece = None\<rparr> clicks = Inr g"
    and "0 \<le> columnIndex" "columnIndex < columns"
  shows "\<exists>g'. handleClick g columnIndex = Inr g' \<and>
           board_colors (state g') = board_colors (state g) \<and>
           (case selectedPiece g of
              None \<Rightarrow> state g' = state g
            | Some (src, row) \<Rightarrow>
                if columnIndex = src \<or> findEmptyRow g columnIndex = Inr (- 1)
                then state g' = state g
                else \<exists>t x. findEmptyRow g columnIndex = Inr t \<and> findTopPiece g src = Inr row \<and>
                       slot_at (state g) src row = Inr (Color x) \<and>
                       slot_at (state g) columnIndex t = Inr Null \<and>
                       (\<forall>r. 0 \<le> r \<and> r < t \<longrightarrow> (\<exists>y. slot_at (state g) columnIndex r = Inr (Color y))) \<and>
                       (\<forall>r. row < r \<and> r < HEIGHT g \<longrightarrow> slot_at (state g) src r = Inr Null) \<and>
                       state g' = (state g)[nat columnIndex := (state g ! nat columnIndex)[nat t := Color x],
                                            nat src := (state g ! nat src)[nat row := Null]])"
proof -
  let ?g0 = "\<lparr>COLUMNS = columns, HEIGHT = height, state = board,
                  referenceState = reference, selectedPiece = None\<rparr>"
  have s0: "stacked ?g0" by (rule initializeState_stacked[OF assms(1,2,3,4)])
  have t0: "selection_on_top ?g0" by (simp add: selection_on_top_def)
  have "\<forall>c\<in>set clicks. 0 \<le> c \<and> c < COLUMNS ?g0" using assms(5) by simp
  then obtain g1 where "handleClicks ?g0 clicks = Inr g1" "stacked g1" "selection_on_top g1"
    "COLUMNS g1 = COLUMNS ?g0"
    using handleClicks_stacked[OF s0 t0, of clicks] by blast
  then have g: "stacked g" "selection_on_top g" "COLUMNS g = columns"
    using assms(6) by simp_all
  have c: "columnIndex < COLUMNS g" using assms(8) g(3) by simp
  show ?thesis using handleClick_stacked[OF g(1,2) assms(7) c] by blast
qed

theorem handleClick_keeps_colors_witness:
  "\<exists>g'. handleClick \<lparr>COLUMNS = 2, HEIGHT = 2,
            state = [[Color ''c'', Color ''a''], [Color ''b'', Null]],
            referenceState = [[Color ''a'', Null], [Color ''c'', Color ''b'']],
            selectedPiece = Some (0, 1)\<rparr> 1 = Inr g' \<and>
         board_colors (state g') = {#''c'', ''a'', ''b''#} \<and>
         state g' = [[Color ''c'', Null], [Color ''b'', Color ''a'']]"
proof -
  let ?g = "\<lparr>COLUMNS = 2, HEIGHT = 2,
            state = [[Color ''c'', Color ''a''], [Color ''b'', Null]],
            referenceState = [[Color ''a'', Null], [Color ''c'', Color ''b'']],
            selectedPiece = Some (0, 1)\<rparr> :: string game"
  have u: "uniform (\<lambda>_. 0)" by (simp add: uniform_def)
  have i: "fst (initializeState 2 [''a'', ''b'', ''c''] 2 2 (\<lambda>_. 0))
           = Inr [[Color ''c'', Color ''a''], [Color ''b'', Null]]"
    by code_simp
  have r: "nat 2 \<le> length [[Color ''a'', Null], [Color ''c'', Color ''b'']]" by simp
  have c: "\<forall>c\<in>set [0 :: int]. 0 \<le> c \<and> c < 2" by simp
  have h: "handleClicks \<lparr>COLUMNS = 2, HEIGHT = 2,
            state = [[Color ''c'', Color ''a''], [Color ''b'', Null]],
            referenceState = [[Color ''a'', Null], [Color ''c'', Color ''b'']],
            selectedPiece = None\<rparr> [0] = Inr ?g"
    by code_simp
  obtain g' where g': "handleClick ?g 1 = Inr g'"
    and b: "board_colors (state g') = board_colors (state ?g)"
    using handleClick_keeps_colors[OF _ u i r c h, of 1] by auto
  have "handleClick ?g 1 = Inr \<lparr>COLUMNS = 2, HEIGHT = 2,
      state = [[Color ''c'', Null], [Color ''b'', Color ''a'']],
      referenceState = [[Color ''a'', Null], [Color ''c'', Color ''b'']],
      selectedPiece = None\<rparr>"
    by code_simp
  then have s: "state g' = [[Color ''c'', Null], [Color ''b'', Color ''a'']]"
    using g' by auto
  have "board_colors (state ?g) = {#''c'', ''a'', ''b''#}"
    by (simp add: board_colors_def)
  then show ?thesis using g' b s by simp
qed

end
